theory Spec2Isabelle
  imports Complex_Main "HOL-Library.Multiset"
begin

section \<open>EMS simulation: the model and its proved properties\<close>

text \<open>
  A shallow embedding of \<^verbatim>\<open>Simulation.py\<close>. Python floats are idealised as the real
  numbers (\<^typ>\<open>real\<close>): \<^verbatim>\<open>math.sqrt\<close>, \<^verbatim>\<open>math.exp\<close>, \<^verbatim>\<open>math.sin\<close> and
  \<^verbatim>\<open>math.cos\<close> are the real functions, decimal literals are the decimal fractions they
  denote, rounding and NaN are not modelled. The ambulance, station and replication counts
  are natural numbers. Exceptions are values of \<open>error\<close>; the process-global random
  generators of \<^verbatim>\<open>numpy.random\<close> and \<^verbatim>\<open>random\<close> are an explicit state that every
  draw reads and advances.
\<close>

subsection \<open>Core helpers\<close>

datatype error = IndexError | ValueError | AssertionError

definition radians :: "real \<Rightarrow> real" where
  "radians x = x * pi / 180"

text \<open>\<^verbatim>\<open>math.atan2(y, x)\<close>: the angle of the point \<open>(x, y)\<close>, in \<open>(-pi, pi]\<close>.\<close>

definition atan2 :: "real \<Rightarrow> real \<Rightarrow> real" where
  "atan2 y x =
     (if 0 < x then arctan (y / x)
      else if x < 0 then (if 0 \<le> y then arctan (y / x) + pi else arctan (y / x) - pi)
      else if 0 < y then pi / 2
      else if y < 0 then - (pi / 2)
      else 0)"

definition distance_km :: "real \<Rightarrow> real \<Rightarrow> real \<Rightarrow> real \<Rightarrow> real" where
  "distance_km lat1 lon1 lat2 lon2 =
     (let la1 = radians lat1; lo1 = radians lon1; la2 = radians lat2; lo2 = radians lon2;
          r = 6371.0;
          dlon = lo2 - lo1;
          dlat = la2 - la1;
          a = (sin (dlat / 2)) ^ 2 + cos la1 * cos la2 * (sin (dlon / 2)) ^ 2;
          c = 2 * atan2 (sqrt a) (sqrt (1 - a))
      in r * c)"

definition get_travel_time_minutes_b :: "real \<Rightarrow> real \<Rightarrow> real \<Rightarrow> real \<Rightarrow> real" where
  "get_travel_time_minutes_b d_km b0 b1 b2 =
     (if d_km \<le> 0.1 then 0.0
      else
        let md = (if d_km \<le> 4.13 then 2.42 * sqrt d_km else 2.46 + 0.596 * d_km);
            cd = sqrt (b0 * (b2 + 1) + b1 * (b2 + 1) * md + b2 * md ^ 2) / md
        in md * exp cd)"

text \<open>The call with the default coefficients, the only one the simulation makes.\<close>

definition get_travel_time_minutes :: "real \<Rightarrow> real" where
  "get_travel_time_minutes d_km = get_travel_time_minutes_b d_km 0.336 0.000058 0.0388"

definition build_table :: "int list \<Rightarrow> int list list" where
  "build_table primary_list = map (\<lambda>i. take i primary_list) [0..<length primary_list + 1]"

text \<open>
  The subscript \<^verbatim>\<open>xs[i]\<close> of a Python list: positions \<open>0 .. len - 1\<close> from the
  front, \<open>-1 .. -len\<close> from the back, anything else raises.
\<close>

definition py_index :: "'a list \<Rightarrow> int \<Rightarrow> error + 'a" where
  "py_index xs i =
     (if 0 \<le> i \<and> i < int (length xs) then Inr (xs ! nat i)
      else if i < 0 \<and> - int (length xs) \<le> i then Inr (xs ! nat (int (length xs) + i))
      else Inl IndexError)"

text \<open>\<^verbatim>\<open>np.argmin\<close>: the first index of the least element; an empty sequence raises.\<close>

fun argmin :: "real list \<Rightarrow> nat" where
  "argmin [] = 0"
| "argmin [x] = 0"
| "argmin (x # y # ys) =
     (let j = argmin (y # ys) in if x \<le> (y # ys) ! j then 0 else Suc j)"

definition np_argmin :: "real list \<Rightarrow> error + nat" where
  "np_argmin xs = (if xs = [] then Inl ValueError else Inr (argmin xs))"

text \<open>Python's \<^verbatim>\<open>min\<close> of a list; an empty list raises.\<close>

definition py_min :: "real list \<Rightarrow> error + real" where
  "py_min xs = (if xs = [] then Inl ValueError else Inr (Min (set xs)))"

subsection \<open>Fixed stations and hospitals\<close>

record place =
  ident :: nat
  latitude :: real
  longitude :: real

record ambulance = place +
  availability :: int

definition station_lat :: "real list" where
  "station_lat =
     [53.560819, 53.459373, 53.596919, 53.458361, 53.540513, 53.524711, 53.501455,
      53.616200, 53.576052, 53.496447, 53.599942, 53.548177, 53.491966, 53.493017,
      53.553621, 53.548412, 53.570662]"

definition station_lon :: "real list" where
  "station_lon =
     [-113.493309, -113.591074, -113.420168, -113.393060, -113.593065, -113.456783, -113.628936,
      -113.539335, -113.459060, -113.517286, -113.465073, -113.565264, -113.494986, -113.417560,
      -113.525529, -113.500589, -113.407889]"

definition home_station :: "nat list" where
  "home_station = [2, 2, 3, 4, 4, 6, 7, 7, 8, 8, 9, 11, 12, 13, 13, 15]"

definition hospital_lat :: "real list" where
  "hospital_lat = [53.55696, 53.52071, 53.60444, 53.461583, 53.521115]"

definition hospital_lon :: "real list" where
  "hospital_lon = [-113.496566, -113.523769, -113.417621, -113.429724, -113.613514]"

definition make_station :: "nat \<Rightarrow> place" where
  "make_station i = \<lparr>ident = i + 1, latitude = station_lat ! i, longitude = station_lon ! i\<rparr>"

definition make_ambulance :: "nat \<Rightarrow> ambulance" where
  "make_ambulance i =
     (let hs = home_station ! i
      in \<lparr>ident = i, latitude = station_lat ! hs, longitude = station_lon ! hs, availability = 1\<rparr>)"

definition make_hospital :: "nat \<Rightarrow> place" where
  "make_hospital i = \<lparr>ident = i, latitude = hospital_lat ! i, longitude = hospital_lon ! i\<rparr>"

text \<open>
  The list comprehensions index the coordinate tables from 0: more stations or hospitals
  than the tables hold raise \<^verbatim>\<open>IndexError\<close>, and the assertion bounds the fleet by the
  home-station list.
\<close>

definition fixed_location_generator ::
  "nat \<Rightarrow> nat \<Rightarrow> nat \<Rightarrow> error + (ambulance list \<times> place list \<times> place list)" where
  "fixed_location_generator ambulance_n stations_n hospitals_n =
     (if length station_lat < stations_n then Inl IndexError
      else if \<not> (length home_station \<ge> ambulance_n) then Inl AssertionError
      else if length hospital_lat < hospitals_n then Inl IndexError
      else Inr (map make_ambulance [0..<ambulance_n],
                map make_station [0..<stations_n],
                map make_hospital [0..<hospitals_n]))"

subsection \<open>The random generators\<close>

text \<open>
  The generators are library code outside the repository. They are a parameter: a state
  \<open>'g\<close> (both global generators together) and the draws the program makes, each
  returning the value drawn and the advanced state. \<open>seed\<close> is the state the module-level
  \<^verbatim>\<open>random.seed(SEED); np.random.seed(SEED)\<close> leaves.
\<close>

record 'g rng_ops =
  seed :: "nat \<Rightarrow> 'g"
  np_exponential :: "real \<Rightarrow> 'g \<Rightarrow> real \<times> 'g"
  np_uniform :: "real \<Rightarrow> real \<Rightarrow> 'g \<Rightarrow> real \<times> 'g"
  py_random :: "'g \<Rightarrow> real \<times> 'g"

definition SEED :: nat where
  "SEED = 31"

text \<open>A draw with \<^verbatim>\<open>size=n\<close>: \<open>n\<close> draws in sequence.\<close>

fun draws :: "('g \<Rightarrow> real \<times> 'g) \<Rightarrow> nat \<Rightarrow> 'g \<Rightarrow> real list \<times> 'g" where
  "draws d 0 g = ([], g)"
| "draws d (Suc n) g =
     (let (x, g1) = d g; (xs, g2) = draws d n g1 in (x # xs, g2))"

subsection \<open>Synthetic calls\<close>

datatype day = Monday | Tuesday | Wednesday | Thursday | Friday | Saturday | Sunday

datatype shift = Shift1 | Shift2 | Shift3

definition days :: "day list" where
  "days = [Monday, Tuesday, Wednesday, Thursday, Friday, Saturday, Sunday]"

fun LAMBDA_BASE :: "shift \<Rightarrow> real" where
  "LAMBDA_BASE Shift1 = 0.2967"
| "LAMBDA_BASE Shift2 = 0.2967"
| "LAMBDA_BASE Shift3 = 0.1483"

fun day_mult :: "day \<Rightarrow> real" where
  "day_mult Monday = 1.0"
| "day_mult Tuesday = 0.8"
| "day_mult Wednesday = 0.8"
| "day_mult Thursday = 1.0"
| "day_mult Friday = 1.2"
| "day_mult Saturday = 1.2"
| "day_mult Sunday = 1.0"

text \<open>Python's \<^verbatim>\<open>x // y\<close> and \<^verbatim>\<open>x % y\<close> on floats, for a positive \<open>y\<close>.\<close>

definition py_floordiv :: "real \<Rightarrow> real \<Rightarrow> int" where
  "py_floordiv x y = \<lfloor>x / y\<rfloor>"

definition py_fmod :: "real \<Rightarrow> real \<Rightarrow> real" where
  "py_fmod x y = x - y * of_int \<lfloor>x / y\<rfloor>"

definition shift_of :: "real \<Rightarrow> shift" where
  "shift_of time_in_day =
     (if 5 * 60 \<le> time_in_day \<and> time_in_day < 13 * 60 then Shift1
      else if 13 * 60 \<le> time_in_day \<and> time_in_day < 21 * 60 then Shift2
      else Shift3)"

text \<open>
  The \<^verbatim>\<open>while t < total_sim\<close> loop ends only when the draws add up to the horizon, which
  no draw sequence guarantees: \<open>fuel\<close> bounds the number of iterations, and \<open>None\<close> is
  a loop that has not ended within it.
\<close>

fun interarrival_loop ::
  "'g rng_ops \<Rightarrow> nat \<Rightarrow> real \<Rightarrow> real \<Rightarrow> real list \<Rightarrow> 'g \<Rightarrow> (real list \<times> 'g) option" where
  "interarrival_loop R 0 total_sim t interarrivals g =
     (if t < total_sim then None else Some (interarrivals, g))"
| "interarrival_loop R (Suc fuel) total_sim t interarrivals g =
     (if t < total_sim then
        let dy = days ! nat (py_floordiv t (24 * 60) mod 7);
            time_in_day = py_fmod t (24 * 60);
            lam = LAMBDA_BASE (shift_of time_in_day) * day_mult dy;
            (ia, g') = np_exponential R (1 / lam) g
        in interarrival_loop R fuel total_sim (t + ia) (interarrivals @ [ia]) g'
      else Some (interarrivals, g))"

definition generate_interarrivals ::
  "'g rng_ops \<Rightarrow> nat \<Rightarrow> nat \<Rightarrow> 'g \<Rightarrow> (real list \<times> 'g) option" where
  "generate_interarrivals R fuel total_days g =
     interarrival_loop R fuel (real (total_days * 24 * 60)) 0.0 [] g"

definition synthetic_call_locations :: "'g rng_ops \<Rightarrow> nat \<Rightarrow> 'g \<Rightarrow> (real \<times> real) list \<times> 'g" where
  "synthetic_call_locations R n g =
     (let min_lat = 53.35; max_lat = 53.70;
          min_lon = -113.75; max_lon = -113.25;
          (lats, g1) = draws (np_uniform R min_lat max_lat) n g;
          (lons, g2) = draws (np_uniform R min_lon max_lon) n g1
      in (zip lats lons, g2))"

subsection \<open>Events and the event list\<close>

text \<open>
  A call is the tuple \<^verbatim>\<open>(time, treat, lat, lon, hos_req)\<close>. An event is a dictionary
  with a \<^verbatim>\<open>"type"\<close>: \<^verbatim>\<open>"call"\<close> with the call's fields, \<^verbatim>\<open>"free"\<close> with the
  ambulance id, and \<open>Unknown\<close> for any other type, on which the loop raises.
\<close>

type_synonym call = "real \<times> real \<times> real \<times> real \<times> real"

datatype event =
    Call real real real real real
  | Free real nat
  | Unknown real

fun etime :: "event \<Rightarrow> real" where
  "etime (Call t treat lat lon hos) = t"
| "etime (Free t amb) = t"
| "etime (Unknown t) = t"

text \<open>
  \<^verbatim>\<open>bisect.insort(a, x, key=...)\<close> is \<^verbatim>\<open>insort_right\<close>: a binary search for the first
  position whose key is greater than the new key, then \<^verbatim>\<open>a.insert(lo, x)\<close>.
\<close>

function bisect_right :: "real list \<Rightarrow> real \<Rightarrow> nat \<Rightarrow> nat \<Rightarrow> nat" where
  "bisect_right ks x lo hi =
     (if lo < hi then
        (let mid = (lo + hi) div 2
         in if x < ks ! mid then bisect_right ks x lo mid else bisect_right ks x (mid + 1) hi)
      else lo)"
  by pat_completeness auto
termination
  by (relation "measure (\<lambda>(ks, x, lo, hi). hi - lo)") auto

declare bisect_right.simps [simp del]

definition insort_time :: "event list \<Rightarrow> event \<Rightarrow> event list" where
  "insort_time a x =
     (let lo = bisect_right (map etime a) (etime x) 0 (length a)
      in take lo a @ [x] @ drop lo a)"

definition call_event :: "call \<Rightarrow> event" where
  "call_event c = (case c of (t, treat, lat, lon, hos) \<Rightarrow> Call t treat lat lon hos)"

text \<open>The event list of a replication: every call inserted in turn into the empty list.\<close>

definition build_events :: "call list \<Rightarrow> event list" where
  "build_events calls = foldl (\<lambda>events c. insort_time events (call_event c)) [] calls"

text \<open>The calls of a replication: arrival times are the running sums of the interarrivals.\<close>

fun build_calls :: "real \<Rightarrow> real list \<Rightarrow> real list \<Rightarrow> (real \<times> real) list \<Rightarrow> real list \<Rightarrow> call list" where
  "build_calls t (ia # ias) (tr # trs) ((lat, lon) # cs) (h # hs) =
     (t + ia, tr, lat, lon, h) # build_calls (t + ia) ias trs cs hs"
| "build_calls t ias trs cs hs = []"

subsection \<open>The event loop\<close>

record 'g sim_env =
  ops :: "'g rng_ops"
  reposition_table :: "int list list"
  th :: int
  stations :: "place list"
  hospitals :: "place list"

record 'g sim_state =
  ambulances :: "ambulance list"
  events :: "event list"
  current_state :: int
  travel_times :: "real list"
  lost :: nat
  rng :: 'g

definition warmup :: real where
  "warmup = 7 * 24 * 60"

text \<open>
  \<^verbatim>\<open>free\<close> holds references to the dictionaries of \<^verbatim>\<open>ambulances\<close>; the model holds
  their positions in the list, so that the mutation of the chosen one is an update of the
  list at its position.
\<close>

definition free_pool :: "ambulance list \<Rightarrow> nat list" where
  "free_pool ambs =
     (let free = filter (\<lambda>i. availability (ambs ! i) = 1) [0..<length ambs]
      in if free = [] then [0..<length ambs] else free)"

definition pool_dists :: "ambulance list \<Rightarrow> nat list \<Rightarrow> real \<Rightarrow> real \<Rightarrow> real list" where
  "pool_dists ambs free lat lon =
     map (\<lambda>i. distance_km (latitude (ambs ! i)) (longitude (ambs ! i)) lat lon) free"

definition hospital_dists :: "place list \<Rightarrow> real \<Rightarrow> real \<Rightarrow> real list" where
  "hospital_dists hs lat lon = map (\<lambda>h. distance_km lat lon (latitude h) (longitude h)) hs"

text \<open>The \<^verbatim>\<open>"call"\<close> branch; the event has been popped from \<open>events s\<close>.\<close>

definition handle_call ::
  "'g sim_env \<Rightarrow> real \<Rightarrow> real \<Rightarrow> real \<Rightarrow> real \<Rightarrow> real \<Rightarrow> 'g sim_state \<Rightarrow> error + 'g sim_state" where
  "handle_call env t treat lat lon hos s =
     (if current_state s = 0 then
        Inr (if t \<ge> warmup then s\<lparr>lost := lost s + 1\<rparr> else s)
      else
        let ambs = ambulances s;
            free = free_pool ambs;
            dists = pool_dists ambs free lat lon
        in case np_argmin dists of
             Inl e \<Rightarrow> Inl e
           | Inr j \<Rightarrow>
               let k = free ! j;
                   amb = ambs ! k;
                   ambs' = ambs[k := amb\<lparr>availability := 0, latitude := lat, longitude := lon\<rparr>];
                   t1 = get_travel_time_minutes (Min (set dists));
                   tt1 = (if t \<ge> warmup then travel_times s @ [t1] else travel_times s)
               in if hos = 1 then
                    (case py_min (hospital_dists (hospitals env) lat lon) of
                       Inl e \<Rightarrow> Inl e
                     | Inr hmin \<Rightarrow>
                         let t2 = get_travel_time_minutes hmin;
                             tt2 = (if t \<ge> warmup then tt1 @ [t2] else tt1);
                             (hosp_treat, g') = np_exponential (ops env) 35 (rng s);
                             finish = t + t1 + treat + t2 + hosp_treat
                         in Inr (s\<lparr>ambulances := ambs',
                                   current_state := current_state s - 1,
                                   travel_times := tt2,
                                   rng := g',
                                   events := insort_time (events s) (Free finish (ident amb))\<rparr>))
                  else
                    let finish = t + t1 + treat
                    in Inr (s\<lparr>ambulances := ambs',
                              current_state := current_state s - 1,
                              travel_times := tt1,
                              events := insort_time (events s) (Free finish (ident amb))\<rparr>))"

text \<open>The candidate stations of a reposition, as the source computes them.\<close>

definition reposition_candidates :: "int list list \<Rightarrow> nat \<Rightarrow> int \<Rightarrow> error + int list" where
  "reposition_candidates table n_stations cs =
     (case py_index table (min (int (length table) - 1) cs) of
        Inl e \<Rightarrow> Inl e
      | Inr entry \<Rightarrow>
          let candidates = (if entry \<noteq> [] then entry else [1, 2, 3]);
              candidates = filter (\<lambda>c. 1 \<le> c \<and> c \<le> int n_stations) candidates
          in Inr (if candidates = [] then [1, 2, 3] else candidates))"

text \<open>The loop over the candidates: the distance to each, raising at the first bad index.\<close>

fun station_dists :: "place list \<Rightarrow> real \<Rightarrow> real \<Rightarrow> int list \<Rightarrow> error + real list" where
  "station_dists sts lat lon [] = Inr []"
| "station_dists sts lat lon (cid # cids) =
     (case py_index sts (cid - 1) of
        Inl e \<Rightarrow> Inl e
      | Inr st \<Rightarrow>
          (case station_dists sts lat lon cids of
             Inl e \<Rightarrow> Inl e
           | Inr ds \<Rightarrow> Inr (distance_km lat lon (latitude st) (longitude st) # ds)))"

text \<open>The target station of a reposition of an ambulance at \<open>(lat, lon)\<close>.\<close>

definition reposition_target :: "'g sim_env \<Rightarrow> int \<Rightarrow> real \<Rightarrow> real \<Rightarrow> error + int" where
  "reposition_target env cs lat lon =
     (case reposition_candidates (reposition_table env) (length (stations env)) cs of
        Inl e \<Rightarrow> Inl e
      | Inr candidates \<Rightarrow>
          (case station_dists (stations env) lat lon candidates of
             Inl e \<Rightarrow> Inl e
           | Inr ds \<Rightarrow>
               (case np_argmin ds of
                  Inl e \<Rightarrow> Inl e
                | Inr j \<Rightarrow> Inr (candidates ! j))))"

text \<open>The \<^verbatim>\<open>"free"\<close> branch.\<close>

definition handle_free :: "'g sim_env \<Rightarrow> real \<Rightarrow> nat \<Rightarrow> 'g sim_state \<Rightarrow> error + 'g sim_state" where
  "handle_free env t amb_id s =
     (if length (ambulances s) \<le> amb_id then Inl IndexError
      else
        let amb = (ambulances s ! amb_id)\<lparr>availability := 1\<rparr>;
            cs = current_state s + 1
        in if cs < th env then
             (case reposition_target env cs (latitude amb) (longitude amb) of
                Inl e \<Rightarrow> Inl e
              | Inr target_station \<Rightarrow>
                  (case py_index (stations env) (target_station - 1) of
                     Inl e \<Rightarrow> Inl e
                   | Inr st \<Rightarrow>
                       Inr (s\<lparr>ambulances :=
                                 (ambulances s)[amb_id := amb\<lparr>latitude := latitude st,
                                                              longitude := longitude st\<rparr>],
                               current_state := cs\<rparr>)))
           else Inr (s\<lparr>ambulances := (ambulances s)[amb_id := amb], current_state := cs\<rparr>))"

text \<open>One iteration of \<^verbatim>\<open>while events\<close> on the popped event.\<close>

fun step :: "'g sim_env \<Rightarrow> event \<Rightarrow> 'g sim_state \<Rightarrow> error + 'g sim_state" where
  "step env (Call t treat lat lon hos) s = handle_call env t treat lat lon hos s"
| "step env (Free t amb_id) s = handle_free env t amb_id s"
| "step env (Unknown t) s = Inl ValueError"

text \<open>
  A call event weighs two and any other event one: a step removes the popped event and
  adds at most one \<open>Free\<close> event, for a call, so the weight of the list decreases.
\<close>

fun weight :: "event \<Rightarrow> nat" where
  "weight (Call t treat lat lon hos) = 2"
| "weight (Free t amb_id) = 1"
| "weight (Unknown t) = 1"

lemma sum_weight_insort_time:
  "sum_list (map weight (insort_time a x)) = weight x + sum_list (map weight a)"
proof -
  define n where "n = bisect_right (map etime a) (etime x) 0 (length a)"
  have "sum_list (map weight (take n a)) + sum_list (map weight (drop n a))
      = sum_list (map weight (take n a @ drop n a))"
    by (simp only: map_append sum_list_append)
  also have "\<dots> = sum_list (map weight a)"
    by (simp only: append_take_drop_id)
  finally have e: "sum_list (map weight (take n a)) + sum_list (map weight (drop n a))
      = sum_list (map weight a)" .
  have "insort_time a x = take n a @ [x] @ drop n a"
    by (simp add: insort_time_def n_def Let_def)
  then have "sum_list (map weight (insort_time a x))
      = weight x + (sum_list (map weight (take n a)) + sum_list (map weight (drop n a)))"
    by simp
  then show ?thesis by (simp only: e)
qed

lemma handle_call_weight:
  assumes "handle_call env t treat lat lon hos s = Inr s'"
  shows "sum_list (map weight (events s')) \<le> 1 + sum_list (map weight (events s))"
  using assms
  by (auto simp: handle_call_def Let_def sum_weight_insort_time
      split: if_splits sum.splits prod.splits)

lemma handle_free_events:
  assumes "handle_free env t amb_id s = Inr s'"
  shows "events s' = events s"
  using assms
  by (auto simp: handle_free_def Let_def split: if_splits sum.splits)

lemma step_weight:
  assumes "step env e (s\<lparr>events := rest\<rparr>) = Inr s'"
  shows "sum_list (map weight (events s')) < weight e + sum_list (map weight rest)"
proof (cases e)
  case (Call t treat lat lon hos)
  then show ?thesis using handle_call_weight[of env t treat lat lon hos "s\<lparr>events := rest\<rparr>" s'] assms
    by simp
next
  case (Free t amb_id)
  then show ?thesis using handle_free_events[of env t amb_id "s\<lparr>events := rest\<rparr>" s'] assms
    by simp
next
  case (Unknown t)
  then show ?thesis using assms by simp
qed

function run :: "'g sim_env \<Rightarrow> 'g sim_state \<Rightarrow> error + 'g sim_state" where
  "run env s =
     (case events s of
        [] \<Rightarrow> Inr s
      | e # rest \<Rightarrow>
          (case step env e (s\<lparr>events := rest\<rparr>) of
             Inl err \<Rightarrow> Inl err
           | Inr s' \<Rightarrow> run env s'))"
  by pat_completeness auto
termination
proof (relation "measure (\<lambda>(env, s). sum_list (map weight (events s)))")
  show "wf (measure (\<lambda>(env, s). sum_list (map weight (events s))))" by simp
next
  fix env :: "'g sim_env" and s :: "'g sim_state" and e rest s'
  assume "events s = e # rest" "step env e (s\<lparr>events := rest\<rparr>) = Inr s'"
  then show "((env, s'), (env, s)) \<in> measure (\<lambda>(env, s). sum_list (map weight (events s)))"
    by (simp add: step_weight)
qed

declare run.simps [simp del]

text \<open>The two cases of the loop: no event left, and an event to pop.\<close>

lemma run_no_events: "events s = [] \<Longrightarrow> run env s = Inr s"
  by (subst run.simps) simp

lemma run_step:
  "events s = e # rest \<Longrightarrow>
   run env s = (case step env e (s\<lparr>events := rest\<rparr>) of Inl err \<Rightarrow> Inl err | Inr s' \<Rightarrow> run env s')"
  by (subst run.simps) simp

subsection \<open>The fitness function\<close>

text \<open>
  \<^verbatim>\<open>np.median\<close> of a non-empty sequence: the middle element of the sorted sequence, or
  the mean of the two middle elements. \<^verbatim>\<open>np.mean\<close> of an empty sequence is \<^verbatim>\<open>nan\<close>,
  which is \<open>None\<close>; \<open>mean\<close> is \<^verbatim>\<open>np.mean\<close> where the source has checked that the
  sequence is not empty.
\<close>

definition np_median :: "real list \<Rightarrow> real" where
  "np_median xs =
     (let s = sort xs; n = length xs
      in if odd n then s ! (n div 2) else (s ! (n div 2 - 1) + s ! (n div 2)) / 2)"

definition mean :: "real list \<Rightarrow> real" where
  "mean xs = sum_list xs / real (length xs)"

definition np_mean :: "real list \<Rightarrow> real option" where
  "np_mean xs = (if xs = [] then None else Some (mean xs))"

record metrics =
  median_response_time :: "real option"
  coverage :: "real option"
  lost_calls :: "real option"

text \<open>The state of a replication before its first event.\<close>

definition initial_state :: "ambulance list \<Rightarrow> call list \<Rightarrow> nat \<Rightarrow> 'g \<Rightarrow> 'g sim_state" where
  "initial_state ambs calls AMBULANCE_NUMBER g =
     \<lparr>ambulances = ambs, events = build_events calls, current_state = int AMBULANCE_NUMBER,
      travel_times = [], lost = 0, rng = g\<rparr>"

text \<open>The three quantities of a replication, from the state its event loop ends in.\<close>

definition replication_metrics :: "'g sim_state \<Rightarrow> real \<times> real \<times> nat" where
  "replication_metrics s =
     (let (med, cov) =
            (if travel_times s \<noteq> [] then
               (np_median (travel_times s),
                mean (map (\<lambda>t. if t \<le> 9 then 1 else 0) (travel_times s)))
             else (999.0, 0.0))
      in (med, cov, lost s))"

text \<open>The call stream of a replication, drawn from the generators.\<close>

definition generate_calls :: "'g rng_ops \<Rightarrow> nat \<Rightarrow> 'g \<Rightarrow> (call list \<times> 'g) option" where
  "generate_calls R fuel g =
     (case generate_interarrivals R fuel 35 g of
        None \<Rightarrow> None
      | Some (interarrivals, g1) \<Rightarrow>
          let (treat_times, g2) = draws (np_exponential R (1 / 15)) (length interarrivals) g1;
              (coords, g3) = synthetic_call_locations R (length interarrivals) g2;
              (us, g4) = draws (py_random R) (length interarrivals) g3;
              hospital_req = map (\<lambda>u. if u < 0.7 then 1 else 0) us
          in Some (build_calls 0.0 interarrivals treat_times coords hospital_req, g4))"

definition make_env ::
  "'g rng_ops \<Rightarrow> int list list \<Rightarrow> int \<Rightarrow> place list \<Rightarrow> place list \<Rightarrow> 'g sim_env" where
  "make_env R table t sts hos =
     \<lparr>ops = R, reposition_table = table, th = t, stations = sts, hospitals = hos\<rparr>"

text \<open>The event loop of a replication on a given call stream.\<close>

definition simulate ::
  "'g rng_ops \<Rightarrow> int list list \<Rightarrow> int \<Rightarrow> nat \<Rightarrow> nat \<Rightarrow> call list \<Rightarrow> 'g \<Rightarrow> error + 'g sim_state" where
  "simulate R table t AMBULANCE_NUMBER STATIONS_NUMBER calls g =
     (case fixed_location_generator AMBULANCE_NUMBER STATIONS_NUMBER 5 of
        Inl e \<Rightarrow> Inl e
      | Inr (ambs, sts, hos) \<Rightarrow>
          run (make_env R table t sts hos) (initial_state ambs calls AMBULANCE_NUMBER g))"

text \<open>One pass of the \<^verbatim>\<open>for _ in range(iterations)\<close> loop.\<close>

definition replication ::
  "'g rng_ops \<Rightarrow> nat \<Rightarrow> int list list \<Rightarrow> int \<Rightarrow> nat \<Rightarrow> nat \<Rightarrow> 'g
     \<Rightarrow> (error + ((real \<times> real \<times> nat) \<times> 'g)) option" where
  "replication R fuel table t AMBULANCE_NUMBER STATIONS_NUMBER g =
     (case fixed_location_generator AMBULANCE_NUMBER STATIONS_NUMBER 5 of
        Inl e \<Rightarrow> Some (Inl e)
      | Inr locs \<Rightarrow>
          (case generate_calls R fuel g of
             None \<Rightarrow> None
           | Some (calls, g1) \<Rightarrow>
               (case simulate R table t AMBULANCE_NUMBER STATIONS_NUMBER calls g1 of
                  Inl e \<Rightarrow> Some (Inl e)
                | Inr s \<Rightarrow> Some (Inr (replication_metrics s, rng s)))))"

fun replications ::
  "'g rng_ops \<Rightarrow> nat \<Rightarrow> int list list \<Rightarrow> int \<Rightarrow> nat \<Rightarrow> nat \<Rightarrow> nat
     \<Rightarrow> real list \<times> real list \<times> nat list \<Rightarrow> 'g
     \<Rightarrow> (error + ((real list \<times> real list \<times> nat list) \<times> 'g)) option" where
  "replications R fuel table t an sn 0 acc g = Some (Inr (acc, g))"
| "replications R fuel table t an sn (Suc k) (medians, coverages, losts) g =
     (case replication R fuel table t an sn g of
        None \<Rightarrow> None
      | Some (Inl e) \<Rightarrow> Some (Inl e)
      | Some (Inr ((med, cov, lst), g')) \<Rightarrow>
          replications R fuel table t an sn k
            (medians @ [med], coverages @ [cov], losts @ [lst]) g')"

definition fitness_function ::
  "'g rng_ops \<Rightarrow> nat \<Rightarrow> int list \<Rightarrow> int \<Rightarrow> nat \<Rightarrow> nat \<Rightarrow> nat \<Rightarrow> 'g
     \<Rightarrow> (error + (metrics \<times> 'g)) option" where
  "fitness_function R fuel primary_list t AMBULANCE_NUMBER STATIONS_NUMBER iterations g =
     (let table = build_table primary_list
      in case replications R fuel table t AMBULANCE_NUMBER STATIONS_NUMBER iterations ([], [], []) g of
           None \<Rightarrow> None
         | Some (Inl e) \<Rightarrow> Some (Inl e)
         | Some (Inr ((medians, coverages, losts), g')) \<Rightarrow>
             Some (Inr (\<lparr>median_response_time = np_mean medians,
                         coverage = np_mean coverages,
                         lost_calls = np_mean (map real losts)\<rparr>, g')))"

section \<open>The travel-time formula over the reals\<close>

text \<open>
  The formula of \<open>get_travel_time_minutes\<close> over the real numbers, in its two stages
  with the default coefficients: the base distance \<open>md\<close> and the correction \<open>cd\<close>. Over
  the reals the formula is 0 up to 0.1 km and non-decreasing above. The source evaluates it
  in IEEE doubles, where the roundings of \<^verbatim>\<open>math.sqrt\<close>, \<^verbatim>\<open>math.exp\<close>, the
  division and the products can make the result at the next larger double smaller by a
  unit in the last place, and \<^verbatim>\<open>md ** 2\<close> raises \<^verbatim>\<open>OverflowError\<close> for a distance
  beyond about 2.3e154 km: the lemmas of this section are about the formula, not about the
  rounded computation.
\<close>

definition base_distance :: "real \<Rightarrow> real" where
  "base_distance d_km = (if d_km \<le> 4.13 then 2.42 * sqrt d_km else 2.46 + 0.596 * d_km)"

definition correction :: "real \<Rightarrow> real" where
  "correction md = sqrt (0.336 * (0.0388 + 1) + 0.000058 * (0.0388 + 1) * md + 0.0388 * md ^ 2) / md"

lemma travel_time_unfold:
  "get_travel_time_minutes d = (if d \<le> 0.1 then 0 else base_distance d * exp (correction (base_distance d)))"
  by (simp add: get_travel_time_minutes_def get_travel_time_minutes_b_def base_distance_def
      correction_def Let_def)

lemma sqrt_tenth_lower: "0.316 \<le> sqrt (0.1::real)"
  by (rule real_le_rsqrt) (simp add: power2_eq_square)

lemma sqrt_413_upper: "sqrt (4.13::real) \<le> 2.0336"
  by (rule real_le_lsqrt) (simp_all add: power2_eq_square)

lemma base_distance_lower:
  assumes "0.1 < d"
  shows "0.76 \<le> base_distance d"
proof (cases "d \<le> 4.13")
  case True
  have "sqrt 0.1 \<le> sqrt d" using assms by simp
  then have "0.316 \<le> sqrt d" using sqrt_tenth_lower by linarith
  then show ?thesis using True by (simp add: base_distance_def)
next
  case False
  then show ?thesis by (simp add: base_distance_def)
qed

lemma base_distance_mono:
  assumes "0.1 < d1" "d1 \<le> d2"
  shows "base_distance d1 \<le> base_distance d2"
proof -
  consider "d2 \<le> 4.13" | "d1 \<le> 4.13" "4.13 < d2" | "4.13 < d1"
    by linarith
  then show ?thesis
  proof cases
    case 1
    then show ?thesis using assms by (simp add: base_distance_def)
  next
    case 2
    have "sqrt d1 \<le> sqrt 4.13" using 2 by simp
    then have "sqrt d1 \<le> 2.0336" using sqrt_413_upper by linarith
    then show ?thesis using 2 by (simp add: base_distance_def)
  next
    case 3
    then show ?thesis using assms by (simp add: base_distance_def)
  qed
qed

lemma quad_sqrt_lipschitz:
  fixes t1 t2 a b c k :: real
  assumes t: "0 \<le> t2" "t2 \<le> t1"
    and coef: "0 \<le> a" "0 \<le> b" "0 \<le> c" "0 \<le> k" "a \<le> k\<^sup>2" "b\<^sup>2 \<le> 4 * k\<^sup>2 * c"
  shows "sqrt (a * t1\<^sup>2 + b * t1 + c) \<le> sqrt (a * t2\<^sup>2 + b * t2 + c) + k * (t1 - t2)"
proof -
  define p2 where "p2 = sqrt (a * t2\<^sup>2 + b * t2 + c)"
  define dl where "dl = t1 - t2"
  have dl0: "0 \<le> dl" using t by (simp add: dl_def)
  have g2: "0 \<le> a * t2\<^sup>2 + b * t2 + c"
    using t coef by (simp add: add_nonneg_nonneg)
  have p2sq: "p2\<^sup>2 = a * t2\<^sup>2 + b * t2 + c"
    unfolding p2_def using g2 by simp
  have p20: "0 \<le> p2" unfolding p2_def using g2 by simp
  have low: "2 * a * t2 + b \<le> 2 * k * p2"
  proof -
    have "(2 * a * t2 + b)\<^sup>2 = 4 * (a * (a * t2\<^sup>2)) + 4 * (a * (b * t2)) + b\<^sup>2"
      by (simp add: power2_eq_square algebra_simps)
    also have "\<dots> \<le> 4 * (k\<^sup>2 * (a * t2\<^sup>2)) + 4 * (k\<^sup>2 * (b * t2)) + 4 * k\<^sup>2 * c"
    proof -
      have "a * (a * t2\<^sup>2) \<le> k\<^sup>2 * (a * t2\<^sup>2)"
        using coef by (intro mult_right_mono) simp_all
      moreover have "a * (b * t2) \<le> k\<^sup>2 * (b * t2)"
        using coef t by (intro mult_right_mono) simp_all
      ultimately show ?thesis using coef(6) by linarith
    qed
    also have "\<dots> = (2 * k * p2)\<^sup>2"
      unfolding power_mult_distrib p2sq by (simp add: algebra_simps)
    finally have "(2 * a * t2 + b)\<^sup>2 \<le> (2 * k * p2)\<^sup>2" .
    moreover have "0 \<le> 2 * k * p2" using coef p20 by simp
    ultimately show ?thesis by (rule power2_le_imp_le)
  qed
  have "a * t1\<^sup>2 + b * t1 + c \<le> (p2 + k * dl)\<^sup>2"
  proof -
    have t1: "t1 = t2 + dl" by (simp add: dl_def)
    have "a * t1\<^sup>2 + b * t1 + c = p2\<^sup>2 + dl * (2 * a * t2 + b) + a * dl\<^sup>2"
      unfolding p2sq t1 by (simp add: power2_eq_square algebra_simps)
    also have "\<dots> \<le> p2\<^sup>2 + dl * (2 * k * p2) + k\<^sup>2 * dl\<^sup>2"
    proof -
      have "dl * (2 * a * t2 + b) \<le> dl * (2 * k * p2)"
        using low dl0 by (rule mult_left_mono)
      moreover have "a * dl\<^sup>2 \<le> k\<^sup>2 * dl\<^sup>2"
        using coef by (intro mult_right_mono) simp_all
      ultimately show ?thesis by linarith
    qed
    also have "\<dots> = (p2 + k * dl)\<^sup>2"
      by (simp add: power2_eq_square algebra_simps)
    finally show ?thesis .
  qed
  moreover have "0 \<le> p2 + k * dl" using p20 dl0 coef by simp
  ultimately have "sqrt (a * t1\<^sup>2 + b * t1 + c) \<le> p2 + k * dl"
    by (intro real_le_lsqrt) simp_all
  then show ?thesis by (simp add: p2_def dl_def)
qed

lemma sqrt_quot_inverse:
  fixes m a b c :: real
  assumes "0 < m"
  shows "sqrt (a + b * m + c * m\<^sup>2) / m = sqrt (a * (1 / m)\<^sup>2 + b * (1 / m) + c)"
proof -
  have "sqrt (a + b * m + c * m\<^sup>2) / m = sqrt (a + b * m + c * m\<^sup>2) / sqrt (m\<^sup>2)"
    using assms by simp
  also have "\<dots> = sqrt ((a + b * m + c * m\<^sup>2) / m\<^sup>2)"
    by (simp add: real_sqrt_divide)
  also have "(a + b * m + c * m\<^sup>2) / m\<^sup>2 = a * (1 / m)\<^sup>2 + b * (1 / m) + c"
    using assms by (simp add: power2_eq_square field_simps)
  finally show ?thesis .
qed

lemma scaled_exp_mono:
  fixes m1 m2 a b c k :: real
  assumes m: "k \<le> m1" "m1 \<le> m2" "0 < k"
    and coef: "0 \<le> a" "0 \<le> b" "0 \<le> c" "a \<le> k\<^sup>2" "b\<^sup>2 \<le> 4 * k\<^sup>2 * c"
  shows "m1 * exp (sqrt (a + b * m1 + c * m1\<^sup>2) / m1)
       \<le> m2 * exp (sqrt (a + b * m2 + c * m2\<^sup>2) / m2)"
proof -
  have pos: "0 < m1" "0 < m2" using m by linarith+
  define q1 where "q1 = sqrt (a + b * m1 + c * m1\<^sup>2) / m1"
  define q2 where "q2 = sqrt (a + b * m2 + c * m2\<^sup>2) / m2"
  define y where "y = 1 - m1 / m2"
  have y0: "0 \<le> y" using pos m by (simp add: y_def)
  have inv_le: "1 / m2 \<le> 1 / m1" using pos m by (simp add: frac_le)
  have "q1 \<le> q2 + k * (1 / m1 - 1 / m2)"
    unfolding q1_def q2_def sqrt_quot_inverse[OF pos(1)] sqrt_quot_inverse[OF pos(2)]
    using pos inv_le coef m by (intro quad_sqrt_lipschitz) simp_all
  also have "k * (1 / m1 - 1 / m2) = (k / m1) * y"
    using pos by (simp add: y_def field_simps)
  also have "(k / m1) * y \<le> 1 * y"
    using y0 pos m by (intro mult_right_mono) simp_all
  finally have qy: "q1 - q2 \<le> y" by simp
  have "1 + (- y) \<le> exp (- y)" by (rule exp_ge_add_one_self)
  then have low: "m1 / m2 \<le> exp (- y)" by (simp add: y_def)
  have "exp q1 = exp (q1 - q2) * exp q2" by (simp add: exp_diff)
  also have "\<dots> \<le> exp y * exp q2" using qy by simp
  finally have e1: "exp q1 \<le> exp y * exp q2" .
  have "m1 * exp y = m2 * ((m1 / m2) * exp y)" using pos by simp
  also have "\<dots> \<le> m2 * (exp (- y) * exp y)"
    using low pos by (intro mult_left_mono mult_right_mono) simp_all
  also have "\<dots> = m2" by (simp add: exp_minus)
  finally have e2: "m1 * exp y \<le> m2" .
  have "m1 * exp q1 \<le> m1 * (exp y * exp q2)"
    using e1 pos by (intro mult_left_mono) simp_all
  also have "\<dots> = (m1 * exp y) * exp q2" by simp
  also have "\<dots> \<le> m2 * exp q2"
    using e2 by (intro mult_right_mono) simp_all
  finally show ?thesis by (simp add: q1_def q2_def)
qed

lemma correction_form:
  "correction md = sqrt (0.3490368 + 0.0000602504 * md + 0.0388 * md\<^sup>2) / md"
  by (simp add: correction_def)

lemma travel_time_mono:
  assumes "0.1 < d1" "d1 \<le> d2"
  shows "get_travel_time_minutes d1 \<le> get_travel_time_minutes d2"
proof -
  have lo: "0.76 \<le> base_distance d1" using assms(1) by (rule base_distance_lower)
  have mo: "base_distance d1 \<le> base_distance d2" using assms by (rule base_distance_mono)
  have "base_distance d1 * exp (correction (base_distance d1))
      \<le> base_distance d2 * exp (correction (base_distance d2))"
    unfolding correction_form
    by (rule scaled_exp_mono[where k = "0.76"]) (use lo mo in \<open>simp_all add: power2_eq_square\<close>)
  then show ?thesis using assms by (simp add: travel_time_unfold)
qed

lemma travel_time_zero: "d \<le> 0.1 \<Longrightarrow> get_travel_time_minutes d = 0"
  by (simp add: travel_time_unfold)

section \<open>Dispatch\<close>

subsection \<open>The first index of the least element\<close>

lemma argmin_less: "xs \<noteq> [] \<Longrightarrow> argmin xs < length xs"
  by (induction xs rule: argmin.induct) (auto simp: Let_def)

lemma argmin_le_all: "x \<in> set xs \<Longrightarrow> xs ! argmin xs \<le> x"
proof (induction xs arbitrary: x rule: argmin.induct)
  case 1
  then show ?case by simp
next
  case (2 y)
  then show ?case by simp
next
  case (3 a b bs)
  have ih: "\<And>z. z \<in> set (b # bs) \<Longrightarrow> (b # bs) ! argmin (b # bs) \<le> z"
    using 3 by blast
  show ?case
  proof (cases "a \<le> (b # bs) ! argmin (b # bs)")
    case True
    then show ?thesis using 3(2) ih by (auto simp: Let_def intro: order_trans)
  next
    case False
    then show ?thesis using 3(2) ih by (auto simp: Let_def)
  qed
qed

lemma argmin_Min: "xs \<noteq> [] \<Longrightarrow> xs ! argmin xs = Min (set xs)"
proof (rule antisym)
  assume ne: "xs \<noteq> []"
  show "xs ! argmin xs \<le> Min (set xs)"
    using ne by (simp add: argmin_le_all)
  show "Min (set xs) \<le> xs ! argmin xs"
    using ne by (simp add: argmin_less)
qed

lemma argmin_first: "j < argmin xs \<Longrightarrow> xs ! argmin xs < xs ! j"
proof (induction xs arbitrary: j rule: argmin.induct)
  case 1
  then show ?case by simp
next
  case (2 y)
  then show ?case by simp
next
  case (3 a b bs)
  show ?case
  proof (cases "a \<le> (b # bs) ! argmin (b # bs)")
    case True
    then show ?thesis using 3(2) by (simp add: Let_def)
  next
    case False
    show ?thesis
    proof (cases j)
      case 0
      then show ?thesis using False by (simp add: Let_def)
    next
      case (Suc i)
      then have "i < argmin (b # bs)" using 3(2) False by (simp add: Let_def)
      then have "(b # bs) ! argmin (b # bs) < (b # bs) ! i" by (rule 3(1))
      then show ?thesis using False Suc by (simp add: Let_def)
    qed
  qed
qed

subsection \<open>The chosen ambulance and the travel times of a dispatch\<close>

text \<open>
  Names for the quantities of the \<^verbatim>\<open>"call"\<close> branch: the ambulances flagged available,
  the position of the chosen ambulance in the fleet, its distance to the call, the two
  travel-time legs, and the fleet after the dispatch.
\<close>

definition available_ids :: "ambulance list \<Rightarrow> nat list" where
  "available_ids ambs = filter (\<lambda>i. availability (ambs ! i) = 1) [0..<length ambs]"

definition chosen :: "ambulance list \<Rightarrow> real \<Rightarrow> real \<Rightarrow> nat" where
  "chosen ambs lat lon = free_pool ambs ! argmin (pool_dists ambs (free_pool ambs) lat lon)"

definition amb_dist :: "ambulance list \<Rightarrow> real \<Rightarrow> real \<Rightarrow> nat \<Rightarrow> real" where
  "amb_dist ambs lat lon i = distance_km (latitude (ambs ! i)) (longitude (ambs ! i)) lat lon"

definition scene_time :: "ambulance list \<Rightarrow> real \<Rightarrow> real \<Rightarrow> real" where
  "scene_time ambs lat lon = get_travel_time_minutes (amb_dist ambs lat lon (chosen ambs lat lon))"

definition hospital_time :: "place list \<Rightarrow> real \<Rightarrow> real \<Rightarrow> real" where
  "hospital_time hs lat lon = get_travel_time_minutes (Min (set (hospital_dists hs lat lon)))"

definition dispatched :: "ambulance list \<Rightarrow> nat \<Rightarrow> real \<Rightarrow> real \<Rightarrow> ambulance list" where
  "dispatched ambs k lat lon =
     ambs[k := (ambs ! k)\<lparr>availability := 0, latitude := lat, longitude := lon\<rparr>]"

lemma free_pool_eq:
  "free_pool ambs = (if available_ids ambs = [] then [0..<length ambs] else available_ids ambs)"
  by (simp add: free_pool_def available_ids_def Let_def)

lemma free_pool_nonempty: "ambs \<noteq> [] \<Longrightarrow> free_pool ambs \<noteq> []"
  by (simp add: free_pool_eq)

lemma free_pool_sorted: "sorted_wrt (<) (free_pool ambs)"
  by (simp add: free_pool_eq available_ids_def sorted_wrt_filter)

lemma free_pool_bound: "i \<in> set (free_pool ambs) \<Longrightarrow> i < length ambs"
  by (auto simp: free_pool_eq available_ids_def split: if_splits)

lemma pool_dists_nth:
  "j < length free \<Longrightarrow> pool_dists ambs free lat lon ! j = amb_dist ambs lat lon (free ! j)"
  by (simp add: pool_dists_def amb_dist_def)

lemma length_pool_dists: "length (pool_dists ambs free lat lon) = length free"
  by (simp add: pool_dists_def)

lemma chosen_in_pool:
  assumes "ambs \<noteq> []"
  shows "chosen ambs lat lon \<in> set (free_pool ambs)"
proof -
  have "pool_dists ambs (free_pool ambs) lat lon \<noteq> []"
    using free_pool_nonempty[OF assms] by (simp add: pool_dists_def)
  then have "argmin (pool_dists ambs (free_pool ambs) lat lon) < length (free_pool ambs)"
    using argmin_less[of "pool_dists ambs (free_pool ambs) lat lon"]
    by (simp add: length_pool_dists)
  then show ?thesis by (simp add: chosen_def)
qed

lemma chosen_dist_Min:
  assumes "ambs \<noteq> []"
  shows "amb_dist ambs lat lon (chosen ambs lat lon)
       = Min (set (pool_dists ambs (free_pool ambs) lat lon))"
proof -
  let ?ds = "pool_dists ambs (free_pool ambs) lat lon"
  have ne: "?ds \<noteq> []" using free_pool_nonempty[OF assms] by (simp add: pool_dists_def)
  have lt: "argmin ?ds < length (free_pool ambs)"
    using argmin_less[OF ne] by (simp add: length_pool_dists)
  have "?ds ! argmin ?ds = amb_dist ambs lat lon (free_pool ambs ! argmin ?ds)"
    using lt by (rule pool_dists_nth)
  then show ?thesis using argmin_Min[OF ne] by (simp add: chosen_def)
qed

lemma chosen_minimal:
  assumes "ambs \<noteq> []" "i \<in> set (free_pool ambs)"
  shows "amb_dist ambs lat lon (chosen ambs lat lon) \<le> amb_dist ambs lat lon i"
proof -
  have "amb_dist ambs lat lon i \<in> set (pool_dists ambs (free_pool ambs) lat lon)"
    using assms(2) by (auto simp: pool_dists_def amb_dist_def)
  then have "Min (set (pool_dists ambs (free_pool ambs) lat lon)) \<le> amb_dist ambs lat lon i"
    by simp
  then show ?thesis using chosen_dist_Min[OF assms(1)] by simp
qed

lemma chosen_first:
  assumes "ambs \<noteq> []" "i \<in> set (free_pool ambs)" "i < chosen ambs lat lon"
  shows "amb_dist ambs lat lon (chosen ambs lat lon) < amb_dist ambs lat lon i"
proof -
  let ?fp = "free_pool ambs"
  let ?ds = "pool_dists ambs ?fp lat lon"
  have ne: "?ds \<noteq> []" using free_pool_nonempty[OF assms(1)] by (simp add: pool_dists_def)
  have lt: "argmin ?ds < length ?fp"
    using argmin_less[OF ne] by (simp add: length_pool_dists)
  obtain p where p: "p < length ?fp" "?fp ! p = i"
    using assms(2) by (auto simp: in_set_conv_nth)
  have "p < argmin ?ds"
  proof (rule ccontr)
    assume "\<not> p < argmin ?ds"
    then have "argmin ?ds \<le> p" by simp
    then have "?fp ! argmin ?ds \<le> ?fp ! p"
      using free_pool_sorted[of ambs] p(1)
      by (cases "argmin ?ds = p") (auto simp: sorted_wrt_iff_nth_less less_imp_le)
    then show False using assms(3) p(2) by (simp add: chosen_def)
  qed
  then have "?ds ! argmin ?ds < ?ds ! p" by (rule argmin_first)
  then show ?thesis using p lt by (simp add: pool_dists_nth chosen_def)
qed

lemma handle_call_dispatch:
  assumes "current_state s \<noteq> 0" "ambulances s \<noteq> []"
  shows "handle_call env t treat lat lon hos s =
     (let ambs = ambulances s;
          k = chosen ambs lat lon;
          t1 = scene_time ambs lat lon;
          tt1 = (if t \<ge> warmup then travel_times s @ [t1] else travel_times s)
      in if hos = 1 then
           (if hospitals env = [] then Inl ValueError
            else
              let t2 = hospital_time (hospitals env) lat lon;
                  tt2 = (if t \<ge> warmup then tt1 @ [t2] else tt1);
                  finish = t + t1 + treat + t2 + fst (np_exponential (ops env) 35 (rng s))
              in Inr (s\<lparr>ambulances := dispatched ambs k lat lon,
                        current_state := current_state s - 1,
                        travel_times := tt2,
                        rng := snd (np_exponential (ops env) 35 (rng s)),
                        events := insort_time (events s) (Free finish (ident (ambs ! k)))\<rparr>))
         else
           Inr (s\<lparr>ambulances := dispatched ambs k lat lon,
                     current_state := current_state s - 1,
                     travel_times := tt1,
                     events := insort_time (events s) (Free (t + t1 + treat) (ident (ambs ! k)))\<rparr>))"
proof -
  have ne: "pool_dists (ambulances s) (free_pool (ambulances s)) lat lon \<noteq> []"
    using free_pool_nonempty[OF assms(2)] by (simp add: pool_dists_def)
  have t1: "get_travel_time_minutes (Min (set (pool_dists (ambulances s) (free_pool (ambulances s)) lat lon)))
      = scene_time (ambulances s) lat lon"
    using chosen_dist_Min[OF assms(2)] by (simp add: scene_time_def)
  show ?thesis
    using assms(1) ne
    by (simp add: handle_call_def Let_def np_argmin_def py_min_def t1 chosen_def[symmetric]
        dispatched_def hospital_time_def hospital_dists_def split_beta)
qed

subsection \<open>A concrete scenario\<close>

text \<open>
  A generator for concrete runs: its state counts the draws made so far, the first
  exponential draw is 60000, every later one 20000, a uniform draw is the lower bound and
  \<^verbatim>\<open>random.random()\<close> is 0.5. The scenario is a fleet of one ambulance at its home
  station, and a call at minute 20000 that needs hospital transport.
\<close>

definition toy_rng :: "nat rng_ops" where
  "toy_rng =
     \<lparr>seed = (\<lambda>n. 0),
      np_exponential = (\<lambda>scale g. (if g = 0 then 60000 else 20000, Suc g)),
      np_uniform = (\<lambda>low high g. (low, Suc g)),
      py_random = (\<lambda>g. (0.5, Suc g))\<rparr>"

definition example_env :: "nat sim_env" where
  "example_env =
     make_env toy_rng (build_table [3, 9]) 2 (map make_station [0..<17]) (map make_hospital [0..<5])"

definition example_state :: "nat sim_state" where
  "example_state =
     \<lparr>ambulances = [make_ambulance 0], events = [], current_state = 1,
      travel_times = [], lost = 0, rng = 0\<rparr>"

definition example_finish :: real where
  "example_finish =
     20000 + scene_time [make_ambulance 0] 53.5 (-113.5) + 5
       + hospital_time (map make_hospital [0..<5]) 53.5 (-113.5) + 60000"

definition example_after :: "nat sim_state" where
  "example_after =
     \<lparr>ambulances = [(make_ambulance 0)\<lparr>availability := 0, latitude := 53.5, longitude := -113.5\<rparr>],
      events = [Free example_finish 0],
      current_state = 0,
      travel_times = [scene_time [make_ambulance 0] 53.5 (-113.5),
                      hospital_time (map make_hospital [0..<5]) 53.5 (-113.5)],
      lost = 0, rng = 1\<rparr>"

lemma example_chosen: "chosen [make_ambulance 0] lat lon = 0"
  by (simp add: chosen_def free_pool_def pool_dists_def Let_def)

lemma insort_time_Nil: "insort_time [] x = [x]"
  by (simp add: insort_time_def bisect_right.simps)

lemma ident_make_ambulance: "ident (make_ambulance i) = i"
  by (simp add: make_ambulance_def Let_def)

lemma mset_insort_time: "mset (insort_time a x) = add_mset x (mset a)"
proof -
  define n where "n = bisect_right (map etime a) (etime x) 0 (length a)"
  have "mset (take n a @ [x] @ drop n a) = add_mset x (mset (take n a) + mset (drop n a))"
    by simp
  also have "mset (take n a) + mset (drop n a) = mset (take n a @ drop n a)"
    by (simp only: mset_append)
  also have "take n a @ drop n a = a" by (rule append_take_drop_id)
  finally show ?thesis by (simp add: insort_time_def n_def Let_def)
qed

lemma example_dispatch_th:
  "step (example_env\<lparr>th := x\<rparr>) (Call 20000 5 53.5 (-113.5) 1) example_state = Inr example_after"
proof -
  have h: "current_state example_state \<noteq> 0" "ambulances example_state \<noteq> []"
    by (simp_all add: example_state_def)
  have hos: "hospitals (example_env\<lparr>th := x\<rparr>) = map make_hospital [0..<5]"
    "ops (example_env\<lparr>th := x\<rparr>) = toy_rng"
    by (simp_all add: example_env_def make_env_def)
  have ne: "map make_hospital [0..<5] \<noteq> []" by simp
  have a: "ambulances example_state = [make_ambulance 0]" "events example_state = []"
    "rng example_state = 0" "travel_times example_state = []"
    by (simp_all add: example_state_def)
  have w: "warmup \<le> 20000" by (simp add: warmup_def)
  show ?thesis
    unfolding step.simps handle_call_dispatch[OF h] hos a Let_def
    using ne w
    by (simp add: example_chosen dispatched_def insort_time_Nil toy_rng_def
        example_after_def example_state_def example_finish_def ident_make_ambulance)
qed

lemma example_dispatch:
  "step example_env (Call 20000 5 53.5 (-113.5) 1) example_state = Inr example_after"
  using example_dispatch_th[of 2] by (simp add: example_env_def make_env_def)

lemma handle_call_fleet:
  assumes "current_state s \<noteq> 0" "handle_call env t treat lat lon hos s = Inr s'"
  shows "ambulances s \<noteq> []"
proof
  assume "ambulances s = []"
  then have "np_argmin (pool_dists (ambulances s) (free_pool (ambulances s)) lat lon) = Inl ValueError"
    by (simp add: free_pool_def pool_dists_def np_argmin_def)
  then show False using assms by (simp add: handle_call_def Let_def)
qed

subsection \<open>The claims on a call event\<close>

text \<open>
  C4. A call processed while the availability counter is not 0. The step returns
  whenever the fleet has an ambulance and, for a hospital transport, the hospital table
  is not empty. Whenever it returns, the pool is the ambulances flagged
  available, or the whole fleet when none is; the chosen ambulance is in the pool, no
  ambulance of the pool is nearer to the call, and every ambulance of the pool that comes
  earlier in the enumeration is strictly farther (ties go to the first occurrence). The
  chosen ambulance becomes busy and takes the coordinates of the call, the counter goes
  down by one, and every other ambulance is unchanged.
\<close>

theorem dispatch_selects_nearest:
  assumes "current_state s \<noteq> 0"
  shows "(ambulances s \<noteq> [] \<and> (hos = 1 \<longrightarrow> hospitals env \<noteq> [])
           \<longrightarrow> (\<exists>s'. step env (Call t treat lat lon hos) s = Inr s')) \<and>
         (\<forall>s'. step env (Call t treat lat lon hos) s = Inr s' \<longrightarrow>
           set (free_pool (ambulances s)) =
             (if \<exists>i < length (ambulances s). availability (ambulances s ! i) = 1
              then {i. i < length (ambulances s) \<and> availability (ambulances s ! i) = 1}
              else {i. i < length (ambulances s)}) \<and>
           chosen (ambulances s) lat lon \<in> set (free_pool (ambulances s)) \<and>
           (\<forall>i \<in> set (free_pool (ambulances s)).
              amb_dist (ambulances s) lat lon (chosen (ambulances s) lat lon)
                \<le> amb_dist (ambulances s) lat lon i \<and>
              (i < chosen (ambulances s) lat lon \<longrightarrow>
                 amb_dist (ambulances s) lat lon (chosen (ambulances s) lat lon)
                   < amb_dist (ambulances s) lat lon i)) \<and>
           length (ambulances s') = length (ambulances s) \<and>
           ambulances s' ! chosen (ambulances s) lat lon =
             (ambulances s ! chosen (ambulances s) lat lon)
               \<lparr>availability := 0, latitude := lat, longitude := lon\<rparr> \<and>
           (\<forall>i < length (ambulances s).
              i \<noteq> chosen (ambulances s) lat lon \<longrightarrow> ambulances s' ! i = ambulances s ! i) \<and>
           current_state s' = current_state s - 1)"
proof (rule conjI)
  show "ambulances s \<noteq> [] \<and> (hos = 1 \<longrightarrow> hospitals env \<noteq> [])
      \<longrightarrow> (\<exists>s'. step env (Call t treat lat lon hos) s = Inr s')"
    using assms by (cases "hos = 1") (simp_all add: handle_call_dispatch Let_def)
next
  let ?ambs = "ambulances s"
  let ?k = "chosen ?ambs lat lon"
  have pool: "set (free_pool ?ambs) =
      (if \<exists>i < length ?ambs. availability (?ambs ! i) = 1
       then {i. i < length ?ambs \<and> availability (?ambs ! i) = 1}
       else {i. i < length ?ambs})"
    by (auto simp: free_pool_eq available_ids_def filter_empty_conv)
  show "\<forall>s'. step env (Call t treat lat lon hos) s = Inr s' \<longrightarrow>
      set (free_pool ?ambs) =
        (if \<exists>i < length ?ambs. availability (?ambs ! i) = 1
         then {i. i < length ?ambs \<and> availability (?ambs ! i) = 1}
         else {i. i < length ?ambs}) \<and>
      ?k \<in> set (free_pool ?ambs) \<and>
      (\<forall>i \<in> set (free_pool ?ambs).
         amb_dist ?ambs lat lon ?k \<le> amb_dist ?ambs lat lon i \<and>
         (i < ?k \<longrightarrow> amb_dist ?ambs lat lon ?k < amb_dist ?ambs lat lon i)) \<and>
      length (ambulances s') = length ?ambs \<and>
      ambulances s' ! ?k = (?ambs ! ?k)\<lparr>availability := 0, latitude := lat, longitude := lon\<rparr> \<and>
      (\<forall>i < length ?ambs. i \<noteq> ?k \<longrightarrow> ambulances s' ! i = ?ambs ! i) \<and>
      current_state s' = current_state s - 1"
  proof (intro allI impI)
    fix s'
    assume st: "step env (Call t treat lat lon hos) s = Inr s'"
    have ne: "?ambs \<noteq> []" using assms st by (auto dest: handle_call_fleet)
    have kin: "?k \<in> set (free_pool ?ambs)" using ne by (rule chosen_in_pool)
    then have klt: "?k < length ?ambs" by (rule free_pool_bound)
    have ambs': "ambulances s' = dispatched ?ambs ?k lat lon"
      and cs': "current_state s' = current_state s - 1"
      using assms ne st
      by (auto simp: handle_call_dispatch Let_def split: if_splits)
    have best: "\<forall>i \<in> set (free_pool ?ambs).
        amb_dist ?ambs lat lon ?k \<le> amb_dist ?ambs lat lon i \<and>
        (i < ?k \<longrightarrow> amb_dist ?ambs lat lon ?k < amb_dist ?ambs lat lon i)"
      using ne by (simp add: chosen_minimal chosen_first)
    have len: "length (ambulances s') = length ?ambs"
      by (simp add: ambs' dispatched_def)
    have upd: "ambulances s' ! ?k
        = (?ambs ! ?k)\<lparr>availability := 0, latitude := lat, longitude := lon\<rparr>"
      using klt by (simp add: ambs' dispatched_def)
    have others: "\<forall>i < length ?ambs. i \<noteq> ?k \<longrightarrow> ambulances s' ! i = ?ambs ! i"
      by (simp add: ambs' dispatched_def)
    show "set (free_pool ?ambs) =
        (if \<exists>i < length ?ambs. availability (?ambs ! i) = 1
         then {i. i < length ?ambs \<and> availability (?ambs ! i) = 1}
         else {i. i < length ?ambs}) \<and>
      ?k \<in> set (free_pool ?ambs) \<and>
      (\<forall>i \<in> set (free_pool ?ambs).
         amb_dist ?ambs lat lon ?k \<le> amb_dist ?ambs lat lon i \<and>
         (i < ?k \<longrightarrow> amb_dist ?ambs lat lon ?k < amb_dist ?ambs lat lon i)) \<and>
      length (ambulances s') = length ?ambs \<and>
      ambulances s' ! ?k = (?ambs ! ?k)\<lparr>availability := 0, latitude := lat, longitude := lon\<rparr> \<and>
      (\<forall>i < length ?ambs. i \<noteq> ?k \<longrightarrow> ambulances s' ! i = ?ambs ! i) \<and>
      current_state s' = current_state s - 1"
      using pool kin best len upd others cs' by (intro conjI)
  qed
qed

theorem dispatch_selects_nearest_witness:
  "current_state example_state \<noteq> 0 \<and>
   step example_env (Call 20000 5 53.5 (-113.5) 1) example_state = Inr example_after \<and>
   set (free_pool (ambulances example_state)) = {0} \<and>
   chosen (ambulances example_state) 53.5 (-113.5) = 0 \<and>
   ambulances example_after ! 0 =
     (ambulances example_state ! 0)\<lparr>availability := 0, latitude := 53.5, longitude := -113.5\<rparr> \<and>
   current_state example_after = current_state example_state - 1"
proof -
  have h: "current_state example_state \<noteq> 0"
    by (simp add: example_state_def)
  have a: "ambulances example_state = [make_ambulance 0]"
    by (simp add: example_state_def)
  have av: "availability (make_ambulance 0) = 1"
    by (simp add: make_ambulance_def Let_def)
  show ?thesis
    using h example_dispatch
      dispatch_selects_nearest[OF h, of 1 example_env 20000 5 "53.5" "-113.5"]
    by (auto simp: a example_chosen av)
qed

text \<open>
  C5. A dispatched call inserts exactly one event into the event list: a \<open>Free\<close> event of
  the chosen ambulance, at the call time plus the scene travel time plus the treatment
  duration, and, when hospital transport is required, plus the travel time to the nearest
  hospital plus one draw of \<^verbatim>\<open>np.random.exponential(35)\<close>.
\<close>

theorem dispatch_schedules_free:
  assumes "current_state s \<noteq> 0"
    and "step env (Call t treat lat lon hos) s = Inr s'"
  shows "\<exists>finish.
           finish =
             (if hos = 1
              then t + scene_time (ambulances s) lat lon + treat
                     + hospital_time (hospitals env) lat lon
                     + fst (np_exponential (ops env) 35 (rng s))
              else t + scene_time (ambulances s) lat lon + treat) \<and>
           events s' =
             insort_time (events s)
               (Free finish (ident (ambulances s ! chosen (ambulances s) lat lon))) \<and>
           mset (events s') =
             add_mset (Free finish (ident (ambulances s ! chosen (ambulances s) lat lon)))
               (mset (events s))"
proof -
  have ne: "ambulances s \<noteq> []" using assms by (auto dest: handle_call_fleet)
  show ?thesis
  proof (cases "hos = 1")
    case True
    then show ?thesis using assms ne
      by (auto simp: handle_call_dispatch Let_def mset_insort_time split: if_splits)
  next
    case False
    then show ?thesis using assms ne
      by (auto simp: handle_call_dispatch Let_def mset_insort_time)
  qed
qed

theorem dispatch_schedules_free_witness:
  "current_state example_state \<noteq> 0 \<and>
   step example_env (Call 20000 5 53.5 (-113.5) 1) example_state = Inr example_after \<and>
   events example_after = [Free example_finish 0] \<and>
   mset (events example_after) = {#Free example_finish 0#}"
proof -
  have h: "current_state example_state \<noteq> 0"
    by (simp add: example_state_def)
  show ?thesis
    using h example_dispatch dispatch_schedules_free[OF h example_dispatch]
    by (simp add: example_after_def)
qed

text \<open>
  C6. A call arriving while the availability counter is 0: the lost-call counter goes up
  by exactly one if and only if the call time is at or past the warm-up boundary, and
  nothing else happens: the fleet, the counter, the travel-time samples, the event list
  (no \<open>Free\<close> event) and the generator are unchanged.
\<close>

theorem lost_call_no_processing:
  assumes "current_state s = 0"
  shows "\<exists>s'. step env (Call t treat lat lon hos) s = Inr s' \<and>
           lost s' = (if t \<ge> warmup then lost s + 1 else lost s) \<and>
           ambulances s' = ambulances s \<and>
           current_state s' = current_state s \<and>
           travel_times s' = travel_times s \<and>
           events s' = events s \<and>
           rng s' = rng s"
  using assms by (simp add: handle_call_def)

theorem lost_call_no_processing_witness:
  "current_state example_after = 0 \<and>
   (\<exists>s'. step example_env (Call 30000 5 53.6 (-113.4) 0) example_after = Inr s' \<and>
      lost s' = 1 \<and> ambulances s' = ambulances example_after \<and>
      events s' = [Free example_finish 0] \<and> travel_times s' = travel_times example_after)"
proof -
  have h: "current_state example_after = 0" by (simp add: example_after_def)
  have w: "warmup \<le> 30000" by (simp add: warmup_def)
  show ?thesis
    using h w lost_call_no_processing[OF h, of example_env 30000 5 "53.6" "-113.4" 0]
    by (auto simp: example_after_def)
qed

text \<open>
  C7. The warm-up boundary is 7 * 24 * 60 minutes. A dispatched call appends its scene
  leg, and its hospital leg when hospital transport is required, to the travel-time
  samples if and only if its arrival time is at or past the boundary; otherwise the
  samples are unchanged.
\<close>

theorem travel_times_recorded_after_warmup:
  assumes "current_state s \<noteq> 0"
    and "step env (Call t treat lat lon hos) s = Inr s'"
  shows "warmup = 7 * 24 * 60 \<and>
         travel_times s' =
           travel_times s @
             (if t \<ge> warmup
              then scene_time (ambulances s) lat lon #
                     (if hos = 1 then [hospital_time (hospitals env) lat lon] else [])
              else [])"
proof -
  have ne: "ambulances s \<noteq> []" using assms by (auto dest: handle_call_fleet)
  show ?thesis
  proof (cases "hos = 1")
    case True
    then show ?thesis using assms ne
      by (auto simp: handle_call_dispatch Let_def warmup_def split: if_splits)
  next
    case False
    then show ?thesis using assms ne
      by (auto simp: handle_call_dispatch Let_def warmup_def)
  qed
qed

theorem travel_times_recorded_after_warmup_witness:
  "current_state example_state \<noteq> 0 \<and>
   step example_env (Call 20000 5 53.5 (-113.5) 1) example_state = Inr example_after \<and>
   warmup = 10080 \<and>
   travel_times example_after =
     [scene_time [make_ambulance 0] 53.5 (-113.5),
      hospital_time (map make_hospital [0..<5]) 53.5 (-113.5)]"
proof -
  have h: "current_state example_state \<noteq> 0"
    by (simp add: example_state_def)
  show ?thesis
    using h example_dispatch travel_times_recorded_after_warmup[OF h example_dispatch]
    by (simp add: example_after_def)
qed

section \<open>The availability counter and the availability flags\<close>

text \<open>
  The states a replication's event loop can be in: the state before the first event, and
  every state a successful iteration leads to. \<open>lockstep\<close> is the invariant of the loop:
  every ambulance sits at the position of its id, every flag is 0 or 1, the counter is the
  number of flags that are 1, and the pending \<open>Free\<close> events are exactly one for each busy
  ambulance.
\<close>

fun pending_ids :: "event list \<Rightarrow> nat list" where
  "pending_ids [] = []"
| "pending_ids (Free t k # es) = k # pending_ids es"
| "pending_ids (e # es) = pending_ids es"

definition busy_set :: "ambulance list \<Rightarrow> nat set" where
  "busy_set ambs = {i. i < length ambs \<and> availability (ambs ! i) = 0}"

definition available_count :: "ambulance list \<Rightarrow> nat" where
  "available_count ambs = length (filter (\<lambda>a. availability a = 1) ambs)"

definition lockstep :: "'g sim_state \<Rightarrow> bool" where
  "lockstep s \<longleftrightarrow>
     (\<forall>i < length (ambulances s). ident (ambulances s ! i) = i) \<and>
     (\<forall>i < length (ambulances s).
        availability (ambulances s ! i) = 0 \<or> availability (ambulances s ! i) = 1) \<and>
     current_state s = int (available_count (ambulances s)) \<and>
     mset (pending_ids (events s)) = mset_set (busy_set (ambulances s))"

inductive reachable :: "'g sim_env \<Rightarrow> 'g sim_state \<Rightarrow> 'g sim_state \<Rightarrow> bool"
  for env :: "'g sim_env" and s0 :: "'g sim_state" where
  reach_start: "reachable env s0 s0"
| reach_step: "reachable env s0 s \<Longrightarrow> events s = e # rest
      \<Longrightarrow> step env e (s\<lparr>events := rest\<rparr>) = Inr s' \<Longrightarrow> reachable env s0 s'"

lemma finite_busy_set: "finite (busy_set ambs)"
  by (simp add: busy_set_def)

lemma available_count_update:
  "k < length ambs \<Longrightarrow>
     int (available_count (ambs[k := y])) =
       int (available_count ambs)
         - (if availability (ambs ! k) = 1 then 1 else 0)
         + (if availability y = 1 then 1 else 0)"
proof (induction ambs arbitrary: k)
  case Nil
  then show ?case by simp
next
  case (Cons a ambs)
  show ?case
  proof (cases k)
    case 0
    then show ?thesis by (simp add: available_count_def)
  next
    case (Suc j)
    then have "j < length ambs" using Cons.prems by simp
    then show ?thesis using Cons.IH[of j] Suc
      by (auto simp: available_count_def split: if_splits)
  qed
qed

lemma available_count_pos:
  assumes "available_count ambs \<noteq> 0"
  shows "available_ids ambs \<noteq> []"
proof -
  have "filter (\<lambda>a. availability a = 1) ambs \<noteq> []"
    using assms by (auto simp: available_count_def)
  then obtain a where "a \<in> set ambs" "availability a = 1"
    by (auto simp: filter_empty_conv)
  then obtain i where "i < length ambs" "availability (ambs ! i) = 1"
    by (auto simp: in_set_conv_nth)
  then show ?thesis by (auto simp: available_ids_def filter_empty_conv)
qed

lemma pending_ids_mset:
  "mset (pending_ids (insort_time es (Free t k))) = add_mset k (mset (pending_ids es))"
proof -
  have gen: "mset (pending_ids (xs @ Free t k # ys)) = add_mset k (mset (pending_ids (xs @ ys)))"
    for xs ys
    by (induction xs rule: pending_ids.induct) simp_all
  define n where "n = bisect_right (map etime es) (etime (Free t k)) 0 (length es)"
  have "insort_time es (Free t k) = take n es @ Free t k # drop n es"
    by (simp add: insort_time_def n_def Let_def)
  then show ?thesis using gen[of "take n es" "drop n es"] by simp
qed

lemma busy_set_dispatch:
  assumes "k < length ambs" "availability (ambs ! k) \<noteq> 0"
  shows "busy_set (dispatched ambs k lat lon) = insert k (busy_set ambs)" "k \<notin> busy_set ambs"
  using assms by (auto simp: busy_set_def dispatched_def nth_list_update)

lemma busy_set_release:
  assumes "k < length ambs" "availability y = 1"
  shows "busy_set (ambs[k := y]) = busy_set ambs - {k}"
  using assms by (auto simp: busy_set_def nth_list_update)

lemma chosen_available:
  assumes "available_count ambs \<noteq> 0"
  shows "chosen ambs lat lon < length ambs" "availability (ambs ! chosen ambs lat lon) = 1"
proof -
  have ids: "available_ids ambs \<noteq> []" using assms by (rule available_count_pos)
  then have ne: "ambs \<noteq> []" by (auto simp: available_ids_def)
  have "chosen ambs lat lon \<in> set (available_ids ambs)"
    using chosen_in_pool[OF ne, of lat lon] ids by (simp add: free_pool_eq)
  then show "chosen ambs lat lon < length ambs" "availability (ambs ! chosen ambs lat lon) = 1"
    by (auto simp: available_ids_def)
qed

lemma handle_call_lockstep:
  assumes inv: "lockstep s" and st: "handle_call env t treat lat lon hos s = Inr s'"
  shows "lockstep s'"
proof (cases "current_state s = 0")
  case True
  then have "s' = s \<or> s' = s\<lparr>lost := lost s + 1\<rparr>"
    using st by (auto simp: handle_call_def split: if_splits)
  then show ?thesis using inv by (auto simp: lockstep_def)
next
  case False
  let ?ambs = "ambulances s"
  let ?k = "chosen ?ambs lat lon"
  have cnt: "available_count ?ambs \<noteq> 0" using False inv by (simp add: lockstep_def)
  have klt: "?k < length ?ambs" and kav: "availability (?ambs ! ?k) = 1"
    using chosen_available[OF cnt] by simp_all
  have ne: "?ambs \<noteq> []" using klt by auto
  have kid: "ident (?ambs ! ?k) = ?k" using inv klt by (simp add: lockstep_def)
  obtain f where ambs': "ambulances s' = dispatched ?ambs ?k lat lon"
    and cs': "current_state s' = current_state s - 1"
    and ev': "events s' = insort_time (events s) (Free f ?k)"
    using False ne st kid
    by (auto simp: handle_call_dispatch Let_def split: if_splits)
  have len: "length (ambulances s') = length ?ambs" by (simp add: ambs' dispatched_def)
  have nth: "ambulances s' ! i =
      (if i = ?k then (?ambs ! ?k)\<lparr>availability := 0, latitude := lat, longitude := lon\<rparr>
       else ?ambs ! i)" if "i < length ?ambs" for i
    using that by (simp add: ambs' dispatched_def nth_list_update)
  have c1: "\<forall>i < length (ambulances s'). ident (ambulances s' ! i) = i"
    using inv by (simp add: lockstep_def len nth)
  have c2: "\<forall>i < length (ambulances s').
      availability (ambulances s' ! i) = 0 \<or> availability (ambulances s' ! i) = 1"
    using inv by (simp add: lockstep_def len nth)
  have "int (available_count (ambulances s')) = int (available_count ?ambs) - 1"
    using available_count_update[OF klt,
        of "(?ambs ! ?k)\<lparr>availability := 0, latitude := lat, longitude := lon\<rparr>"] kav
    by (simp add: ambs' dispatched_def)
  then have c3: "current_state s' = int (available_count (ambulances s'))"
    using inv cs' by (simp add: lockstep_def)
  have "mset (pending_ids (events s')) = add_mset ?k (mset_set (busy_set ?ambs))"
    using inv by (simp add: ev' pending_ids_mset lockstep_def)
  also have "\<dots> = mset_set (insert ?k (busy_set ?ambs))"
    using busy_set_dispatch(2)[OF klt, of] kav by (simp add: finite_busy_set)
  also have "insert ?k (busy_set ?ambs) = busy_set (ambulances s')"
    using busy_set_dispatch(1)[OF klt, of lat lon] kav by (simp add: ambs')
  finally have c4: "mset (pending_ids (events s')) = mset_set (busy_set (ambulances s'))" .
  show ?thesis using c1 c2 c3 c4 by (simp add: lockstep_def)
qed

lemma handle_free_result:
  assumes "handle_free env t k s = Inr s'"
  shows "k < length (ambulances s) \<and> current_state s' = current_state s + 1 \<and>
         events s' = events s \<and>
         (\<exists>y. ambulances s' = (ambulances s)[k := y] \<and> availability y = 1 \<and>
               ident y = ident (ambulances s ! k))"
  using assms
  by (auto simp: handle_free_def Let_def split: if_splits sum.splits)

lemma handle_free_lockstep:
  assumes inv: "lockstep s" and ev: "events s = Free t k # rest"
    and st: "handle_free env t k (s\<lparr>events := rest\<rparr>) = Inr s'"
  shows "lockstep s'"
proof -
  let ?ambs = "ambulances s"
  obtain y where klt: "k < length ?ambs" and cs': "current_state s' = current_state s + 1"
    and ev': "events s' = rest" and ambs': "ambulances s' = ?ambs[k := y]"
    and yav: "availability y = 1" and yid: "ident y = ident (?ambs ! k)"
    using handle_free_result[OF st] by auto
  have pend: "add_mset k (mset (pending_ids rest)) = mset_set (busy_set ?ambs)"
    using inv ev by (simp add: lockstep_def)
  then have "k \<in># mset_set (busy_set ?ambs)" by (metis union_single_eq_member)
  then have kbusy: "k \<in> busy_set ?ambs" by (simp add: finite_busy_set)
  then have kav: "availability (?ambs ! k) = 0" by (simp add: busy_set_def)
  have len: "length (ambulances s') = length ?ambs" by (simp add: ambs')
  have nth: "ambulances s' ! i = (if i = k then y else ?ambs ! i)" if "i < length ?ambs" for i
    using that by (simp add: ambs' nth_list_update)
  have c1: "\<forall>i < length (ambulances s'). ident (ambulances s' ! i) = i"
    using inv yid klt by (simp add: lockstep_def len nth)
  have c2: "\<forall>i < length (ambulances s').
      availability (ambulances s' ! i) = 0 \<or> availability (ambulances s' ! i) = 1"
    using inv yav by (simp add: lockstep_def len nth)
  have "int (available_count (ambulances s')) = int (available_count ?ambs) + 1"
    using available_count_update[OF klt, of y] kav yav by (simp add: ambs')
  then have c3: "current_state s' = int (available_count (ambulances s'))"
    using inv cs' by (simp add: lockstep_def)
  have "mset (pending_ids rest) = mset_set (busy_set ?ambs) - {#k#}"
    using pend by (metis add_mset_remove_trivial)
  also have "\<dots> = mset_set (busy_set ?ambs - {k})"
    by (simp add: mset_set_Diff finite_busy_set kbusy)
  also have "busy_set ?ambs - {k} = busy_set (ambulances s')"
    using busy_set_release[OF klt yav] by (simp add: ambs')
  finally have c4: "mset (pending_ids (events s')) = mset_set (busy_set (ambulances s'))"
    by (simp add: ev')
  show ?thesis using c1 c2 c3 c4 by (simp add: lockstep_def)
qed

lemma step_lockstep:
  assumes "lockstep s" "events s = e # rest" "step env e (s\<lparr>events := rest\<rparr>) = Inr s'"
  shows "lockstep s'"
proof (cases e)
  case (Call t treat lat lon hos)
  have "lockstep (s\<lparr>events := rest\<rparr>)"
    using assms(1,2) Call by (simp add: lockstep_def)
  then show ?thesis using assms(3) Call by (auto intro: handle_call_lockstep)
next
  case (Free t k)
  then show ?thesis using assms by (auto intro: handle_free_lockstep)
next
  case (Unknown t)
  then show ?thesis using assms by simp
qed

lemma reachable_lockstep:
  assumes "reachable env s0 s" "lockstep s0"
  shows "lockstep s"
  using assms by (induction rule: reachable.induct) (auto intro: step_lockstep)

text \<open>The state in which the event loop ends is one of the states it reaches.\<close>

lemma reachable_trans:
  assumes "reachable env s1 s2" "reachable env s0 s1"
  shows "reachable env s0 s2"
  using assms by (induction rule: reachable.induct) (auto intro: reach_step)

lemma run_reachable:
  assumes "run env s = Inr s'"
  shows "reachable env s s'"
  using assms
proof (induction env s rule: run.induct)
  case (1 env s)
  show ?case
  proof (cases "events s")
    case Nil
    then have "s' = s" using "1.prems" by (simp add: run_no_events)
    then show ?thesis by (simp add: reach_start)
  next
    case (Cons e rest)
    then obtain s1 where s1: "step env e (s\<lparr>events := rest\<rparr>) = Inr s1" "run env s1 = Inr s'"
      using "1.prems" by (auto simp: run_step split: sum.splits)
    have "reachable env s1 s'" using Cons s1 by (rule "1.IH")
    moreover have "reachable env s s1" using reach_start Cons s1(1) by (rule reach_step)
    ultimately show ?thesis by (rule reachable_trans)
  qed
qed

lemma set_insort_time: "set (insort_time a x) = insert x (set a)"
  using mset_insort_time[of a x] by (metis set_mset_add_mset_insert set_mset_mset)

lemma set_build_events: "set (build_events calls) = call_event ` set calls"
proof -
  have "set (foldl (\<lambda>events c. insort_time events (call_event c)) acc calls)
      = set acc \<union> call_event ` set calls" for acc
    by (induction calls arbitrary: acc) (auto simp: set_insort_time)
  then show ?thesis by (simp add: build_events_def)
qed

lemma pending_ids_calls:
  assumes "\<forall>e \<in> set es. \<exists>c. e = call_event c"
  shows "pending_ids es = []"
  using assms
proof (induction es)
  case Nil
  then show ?case by simp
next
  case (Cons e es)
  then obtain c where "e = call_event c" by auto
  then show ?case using Cons by (auto simp: call_event_def split: prod.splits)
qed

lemma generator_fleet:
  assumes "fixed_location_generator n sn hn = Inr (ambs, sts, hos)"
  shows "ambs = map make_ambulance [0..<n]"
  using assms by (auto simp: fixed_location_generator_def split: if_splits)

lemma available_count_fleet: "available_count (map make_ambulance [0..<n]) = n"
  by (simp add: available_count_def make_ambulance_def Let_def)

lemma initial_lockstep:
  assumes "fixed_location_generator n sn hn = Inr (ambs, sts, hos)"
  shows "lockstep (initial_state ambs calls n g)"
proof -
  have ambs: "ambs = map make_ambulance [0..<n]" using assms by (rule generator_fleet)
  have "pending_ids (build_events calls) = []"
    by (rule pending_ids_calls) (auto simp: set_build_events simp del: split_paired_Ex)
  moreover have "busy_set ambs = {}"
    by (auto simp: busy_set_def ambs make_ambulance_def Let_def)
  ultimately show ?thesis
    by (simp add: lockstep_def initial_state_def ambs available_count_fleet
        ident_make_ambulance) (simp add: make_ambulance_def Let_def)
qed

lemma example_generator:
  "fixed_location_generator 1 17 5 =
     Inr ([make_ambulance 0], map make_station [0..<17], map make_hospital [0..<5])"
  by (simp add: fixed_location_generator_def station_lat_def home_station_def hospital_lat_def)

lemma example_initial:
  "initial_state [make_ambulance 0] [(20000, 5, 53.5, -113.5, 1)] 1 0 =
     example_state\<lparr>events := [Call 20000 5 53.5 (-113.5) 1]\<rparr>"
  by (simp add: initial_state_def example_state_def build_events_def insort_time_Nil
      call_event_def)

lemma example_reachable:
  "reachable (example_env\<lparr>th := x\<rparr>)
     (initial_state [make_ambulance 0] [(20000, 5, 53.5, -113.5, 1)] 1 0) example_after"
proof -
  let ?s0 = "initial_state [make_ambulance 0] [(20000, 5, 53.5, -113.5, 1)] 1 (0::nat)"
  have ev: "events ?s0 = Call 20000 5 53.5 (-113.5) 1 # []"
    by (subst example_initial) simp
  have pop: "?s0\<lparr>events := []\<rparr> = example_state"
    by (subst example_initial) (simp add: example_state_def)
  have "step (example_env\<lparr>th := x\<rparr>) (Call 20000 5 53.5 (-113.5) 1) (?s0\<lparr>events := []\<rparr>)
      = Inr example_after"
    unfolding pop by (rule example_dispatch_th)
  with reach_start ev show ?thesis by (rule reach_step)
qed

text \<open>
  C10. A replication starts with the counter at the ambulance count and every ambulance
  flagged available. In every state its event loop reaches, the counter is the number of
  ambulances whose flag is 1; so whenever the counter is not 0 the list of ambulances
  flagged available is not empty, and the pool of the dispatcher is that list: the
  fallback to the whole fleet is never taken.
\<close>

theorem counter_matches_available_flags:
  assumes "fixed_location_generator AMBULANCE_NUMBER STATIONS_NUMBER 5 = Inr (ambs, sts, hos)"
    and "reachable env (initial_state ambs calls AMBULANCE_NUMBER g) s"
  shows "current_state (initial_state ambs calls AMBULANCE_NUMBER g) = int AMBULANCE_NUMBER \<and>
         length ambs = AMBULANCE_NUMBER \<and>
         (\<forall>a \<in> set ambs. availability a = 1) \<and>
         current_state s = int (length (filter (\<lambda>a. availability a = 1) (ambulances s))) \<and>
         (current_state s \<noteq> 0 \<longrightarrow>
            filter (\<lambda>i. availability (ambulances s ! i) = 1) [0..<length (ambulances s)] \<noteq> [] \<and>
            free_pool (ambulances s) =
              filter (\<lambda>i. availability (ambulances s ! i) = 1) [0..<length (ambulances s)])"
proof -
  have ambs: "ambs = map make_ambulance [0..<AMBULANCE_NUMBER]"
    using assms(1) by (rule generator_fleet)
  have inv: "lockstep s"
    using assms(2) initial_lockstep[OF assms(1)] by (rule reachable_lockstep)
  have c: "current_state s = int (length (filter (\<lambda>a. availability a = 1) (ambulances s)))"
    using inv by (simp add: lockstep_def available_count_def)
  have f: "available_ids (ambulances s) \<noteq> []" if "current_state s \<noteq> 0"
    using that inv by (intro available_count_pos) (simp add: lockstep_def)
  show ?thesis
    using c f
    by (auto simp: initial_state_def ambs make_ambulance_def Let_def free_pool_def
        available_ids_def)
qed

theorem counter_matches_available_flags_witness:
  "fixed_location_generator 1 17 5 =
     Inr ([make_ambulance 0], map make_station [0..<17], map make_hospital [0..<5]) \<and>
   reachable example_env
     (initial_state [make_ambulance 0] [(20000, 5, 53.5, -113.5, 1)] 1 0) example_after \<and>
   current_state example_after =
     int (length (filter (\<lambda>a. availability a = 1) (ambulances example_after))) \<and>
   current_state example_after = 0 \<and>
   current_state (initial_state [make_ambulance 0] [(20000, 5, 53.5, -113.5, 1)] 1 (0::nat)) = 1 \<and>
   free_pool [make_ambulance 0] = [0]"
proof -
  have r: "reachable example_env
      (initial_state [make_ambulance 0] [(20000, 5, 53.5, -113.5, 1)] 1 0) example_after"
    using example_reachable[of 2] by (simp add: example_env_def make_env_def)
  have r0: "reachable example_env
      (initial_state [make_ambulance 0] [(20000, 5, 53.5, -113.5, 1)] 1 0)
      (initial_state [make_ambulance 0] [(20000, 5, 53.5, -113.5, 1)] 1 0)"
    by (rule reach_start)
  have c0: "current_state (initial_state [make_ambulance 0] [(20000, 5, 53.5, -113.5, 1)] 1 (0::nat)) \<noteq> 0"
    "ambulances (initial_state [make_ambulance 0] [(20000, 5, 53.5, -113.5, 1)] 1 (0::nat))
       = [make_ambulance 0]"
    by (simp_all add: initial_state_def)
  have av: "availability (make_ambulance 0) = 1" by (simp add: make_ambulance_def Let_def)
  show ?thesis
    using example_generator r
      counter_matches_available_flags[OF example_generator r]
      counter_matches_available_flags[OF example_generator r0] c0
    by (simp add: example_after_def av)
qed

text \<open>
  C9. With the threshold \<open>th = 0\<close>, in every state a replication reaches, a \<open>Free\<close> event
  does not trigger the reposition (the counter after the increment is not below the
  threshold): the step returns, flags the ambulance available and leaves the coordinates of
  every ambulance as they were.
\<close>

theorem zero_threshold_never_repositions:
  assumes "fixed_location_generator AMBULANCE_NUMBER STATIONS_NUMBER 5 = Inr (ambs, sts, hos)"
    and "th env = 0"
    and "reachable env (initial_state ambs calls AMBULANCE_NUMBER g) s"
    and "events s = Free t k # rest"
  shows "\<not> (current_state s + 1 < th env) \<and>
         (\<exists>s'. step env (Free t k) (s\<lparr>events := rest\<rparr>) = Inr s' \<and>
            ambulances s' = (ambulances s)[k := (ambulances s ! k)\<lparr>availability := 1\<rparr>] \<and>
            map latitude (ambulances s') = map latitude (ambulances s) \<and>
            map longitude (ambulances s') = map longitude (ambulances s))"
proof -
  have inv: "lockstep s"
    using assms(3) initial_lockstep[OF assms(1)] by (rule reachable_lockstep)
  have nonneg: "0 \<le> current_state s" using inv by (simp add: lockstep_def)
  have "k \<in># mset (pending_ids (events s))" using assms(4) by simp
  moreover have "mset (pending_ids (events s)) = mset_set (busy_set (ambulances s))"
    using inv by (simp add: lockstep_def)
  ultimately have "k \<in># mset_set (busy_set (ambulances s))" by simp
  then have "k \<in> busy_set (ambulances s)"
    by (simp add: finite_busy_set)
  then have klt: "k < length (ambulances s)" by (simp add: busy_set_def)
  have no: "\<not> (current_state s + 1 < th env)" using nonneg assms(2) by simp
  have st: "step env (Free t k) (s\<lparr>events := rest\<rparr>) =
      Inr (s\<lparr>events := rest,
               ambulances := (ambulances s)[k := (ambulances s ! k)\<lparr>availability := 1\<rparr>],
               current_state := current_state s + 1\<rparr>)"
    using klt no by (simp add: handle_free_def Let_def)
  have "map latitude ((ambulances s)[k := (ambulances s ! k)\<lparr>availability := 1\<rparr>])
      = map latitude (ambulances s)"
    using klt by (simp add: map_update list_update_same_conv)
  moreover have "map longitude ((ambulances s)[k := (ambulances s ! k)\<lparr>availability := 1\<rparr>])
      = map longitude (ambulances s)"
    using klt by (simp add: map_update list_update_same_conv)
  ultimately show ?thesis using no st by simp
qed

theorem zero_threshold_never_repositions_witness:
  "fixed_location_generator 1 17 5 =
     Inr ([make_ambulance 0], map make_station [0..<17], map make_hospital [0..<5]) \<and>
   th (example_env\<lparr>th := 0\<rparr>) = 0 \<and>
   reachable (example_env\<lparr>th := 0\<rparr>)
     (initial_state [make_ambulance 0] [(20000, 5, 53.5, -113.5, 1)] 1 0) example_after \<and>
   events example_after = [Free example_finish 0] \<and>
   (\<exists>s'. step (example_env\<lparr>th := 0\<rparr>) (Free example_finish 0) (example_after\<lparr>events := []\<rparr>)
            = Inr s' \<and>
      map latitude (ambulances s') = [53.5] \<and>
      map longitude (ambulances s') = [-113.5] \<and>
      map availability (ambulances s') = [1])"
proof -
  have t0: "th (example_env\<lparr>th := 0\<rparr>) = 0" by simp
  have ev: "events example_after = Free example_finish 0 # []"
    by (simp add: example_after_def)
  show ?thesis
    using example_generator t0 example_reachable[of 0] ev
      zero_threshold_never_repositions[OF example_generator t0 example_reachable[of 0] ev]
    by (auto simp: example_after_def)
qed

section \<open>The candidates of a reposition\<close>

text \<open>
  With at least three stations, the candidate list that the source computes from a table
  built by \<open>build_table\<close> is never empty and holds valid station ids only; the loop over
  the candidates and the lookup of the target stay inside the station table.
\<close>

lemma station_dists_in_range:
  assumes "\<forall>c \<in> set cids. 1 \<le> c \<and> c \<le> int (length sts)"
  shows "\<exists>ds. station_dists sts lat lon cids = Inr ds \<and> length ds = length cids"
  using assms
proof (induction cids)
  case Nil
  then show ?case by simp
next
  case (Cons c cids)
  then obtain ds where ds: "station_dists sts lat lon cids = Inr ds" "length ds = length cids"
    by auto
  have "1 \<le> c" "c \<le> int (length sts)" using Cons.prems by simp_all
  then have "py_index sts (c - 1) = Inr (sts ! nat (c - 1))"
    by (simp add: py_index_def)
  then show ?case using ds by simp
qed

lemma reposition_candidates_in_range:
  assumes "3 \<le> n" "0 \<le> cs"
  shows "\<exists>cands. reposition_candidates (build_table p) n cs = Inr cands \<and> cands \<noteq> [] \<and>
           (\<forall>c \<in> set cands. 1 \<le> c \<and> c \<le> int n)"
proof -
  let ?idx = "min (int (length (build_table p)) - 1) cs"
  have len: "length (build_table p) = length p + 1" by (simp add: build_table_def)
  have "0 \<le> ?idx" "?idx < int (length (build_table p))"
    using assms(2) by (simp_all add: len)
  then obtain entry where entry: "py_index (build_table p) ?idx = Inr entry"
    by (simp add: py_index_def)
  let ?f = "filter (\<lambda>c. 1 \<le> c \<and> c \<le> int n) (if entry \<noteq> [] then entry else [1, 2, 3])"
  have r: "reposition_candidates (build_table p) n cs = Inr (if ?f = [] then [1, 2, 3] else ?f)"
    using entry by (simp add: reposition_candidates_def Let_def)
  have "\<forall>c \<in> set (if ?f = [] then [1, 2, 3] else ?f). 1 \<le> c \<and> c \<le> int n"
    using assms(1) by auto
  moreover have "(if ?f = [] then [1, 2, 3] else ?f) \<noteq> []" by simp
  ultimately show ?thesis using r by blast
qed

lemma reposition_target_in_range:
  assumes "3 \<le> length (stations env)" "reposition_table env = build_table p" "0 \<le> cs"
  shows "\<exists>target. reposition_target env cs lat lon = Inr target \<and>
           1 \<le> target \<and> target \<le> int (length (stations env))"
proof -
  obtain cands where c: "reposition_candidates (build_table p) (length (stations env)) cs = Inr cands"
    "cands \<noteq> []" "\<forall>c \<in> set cands. 1 \<le> c \<and> c \<le> int (length (stations env))"
    using reposition_candidates_in_range[OF assms(1,3)] by blast
  obtain ds where ds: "station_dists (stations env) lat lon cands = Inr ds" "length ds = length cands"
    using station_dists_in_range[OF c(3)] by blast
  have ne: "ds \<noteq> []" using ds(2) c(2) by auto
  then have "argmin ds < length cands" using argmin_less[OF ne] ds(2) by simp
  then have "cands ! argmin ds \<in> set cands" by simp
  then have "1 \<le> cands ! argmin ds \<and> cands ! argmin ds \<le> int (length (stations env))"
    using c(3) by blast
  moreover have "reposition_target env cs lat lon = Inr (cands ! argmin ds)"
    using c(1) ds(1) ne by (simp add: reposition_target_def assms(2) np_argmin_def)
  ultimately show ?thesis by blast
qed

text \<open>
  With fewer than three stations the fallback \<open>[1, 2, 3]\<close> itself names a station that
  does not exist. The scenario: two stations, the policy sequence \<open>[9]\<close>, threshold 2, and
  the one ambulance of the fleet coming free.
\<close>

definition small_env :: "nat sim_env" where
  "small_env = make_env toy_rng (build_table [9]) 2 (map make_station [0..<2]) (map make_hospital [0..<5])"

lemma build_table_9: "build_table [9] = [[], [9]]"
  by (simp add: build_table_def upt_rec)

lemma small_candidates: "reposition_candidates (build_table [9]) 2 1 = Inr [1, 2, 3]"
  by (simp add: build_table_9 reposition_candidates_def py_index_def)

lemma small_station_dists:
  "station_dists (map make_station [0..<2]) lat lon [1, 2, 3] = Inl IndexError"
  by (simp add: py_index_def upt_rec)

section \<open>The metrics of a run\<close>


definition replication_median :: "'g sim_state \<Rightarrow> real" where
  "replication_median s = (if travel_times s = [] then 999 else np_median (travel_times s))"

definition replication_coverage :: "'g sim_state \<Rightarrow> real" where
  "replication_coverage s =
     (if travel_times s = [] then 0
      else real (length (filter (\<lambda>t. t \<le> 9) (travel_times s))) / real (length (travel_times s)))"





lemma sum_indicator: "sum_list (map (\<lambda>t. if P t then 1 else 0) xs) = real (length (filter P xs))"
  by (induction xs) simp_all

lemma replication_metrics_eq:
  "replication_metrics s = (replication_median s, replication_coverage s, lost s)"
  by (simp add: replication_metrics_def replication_median_def replication_coverage_def
      mean_def sum_indicator)




text \<open>
  The call stream that the source generates is never empty: the loop of
  \<open>generate_interarrivals\<close> starts below its horizon and so draws at least once.
\<close>

lemma interarrival_loop_length:
  assumes "interarrival_loop R fuel total_sim t acc g = Some (ias, g')"
  shows "length acc \<le> length ias \<and> (t < total_sim \<longrightarrow> length acc < length ias)"
  using assms
proof (induction fuel arbitrary: t acc g)
  case 0
  then show ?case by (auto split: if_splits)
next
  case (Suc fuel)
  show ?case
  proof (cases "t < total_sim")
    case True
    then obtain ia g1 where "interarrival_loop R fuel total_sim (t + ia) (acc @ [ia]) g1 = Some (ias, g')"
      using Suc.prems by (auto simp: Let_def split: prod.splits)
    then have "length (acc @ [ia]) \<le> length ias" using Suc.IH by blast
    then show ?thesis by simp
  next
    case False
    then show ?thesis using Suc.prems by simp
  qed
qed

lemma length_draws: "length (fst (draws d n g)) = n"
  by (induction n arbitrary: g) (simp_all add: split_beta)

lemma length_build_calls:
  "length (build_calls t ias trs cs hs) = min (min (length ias) (length trs)) (min (length cs) (length hs))"
  by (induction t ias trs cs hs rule: build_calls.induct) simp_all

lemma generate_calls_nonempty:
  assumes "generate_calls R fuel g = Some (calls, g')"
  shows "calls \<noteq> []"
proof -
  obtain ias g1 where gi: "generate_interarrivals R fuel 35 g = Some (ias, g1)"
    using assms by (auto simp: generate_calls_def split: option.splits)
  have "0 < length ias"
    using interarrival_loop_length[of R fuel "real (35 * 24 * 60)" 0 "[]" g ias g1] gi
    by (simp add: generate_interarrivals_def)
  moreover have "length calls = length ias"
    using assms gi
    by (auto simp: generate_calls_def synthetic_call_locations_def length_build_calls
        length_draws split_beta Let_def)
  ultimately show ?thesis by auto
qed

subsection \<open>A complete run\<close>

text \<open>
  One replication with the generator of the concrete scenario, a fleet of one ambulance,
  17 stations, the policy sequence \<open>[3, 9]\<close> and threshold 2: the first draw puts the
  only call at minute 60000, the ambulance is dispatched, comes free and is repositioned to
  station 3.
\<close>

lemma interarrival_loop_unfold:
  "0 < fuel \<Longrightarrow>
   interarrival_loop R fuel total_sim t interarrivals g =
     (if t < total_sim then
        interarrival_loop R (fuel - 1) total_sim
          (t + fst (np_exponential R
                 (1 / (LAMBDA_BASE (shift_of (py_fmod t (24 * 60)))
                        * day_mult (days ! nat (py_floordiv t (24 * 60) mod 7)))) g))
          (interarrivals @
             [fst (np_exponential R
                 (1 / (LAMBDA_BASE (shift_of (py_fmod t (24 * 60)))
                        * day_mult (days ! nat (py_floordiv t (24 * 60) mod 7)))) g)])
          (snd (np_exponential R
                 (1 / (LAMBDA_BASE (shift_of (py_fmod t (24 * 60)))
                        * day_mult (days ! nat (py_floordiv t (24 * 60) mod 7)))) g))
      else Some (interarrivals, g))"
  by (cases fuel) (simp_all add: Let_def split_beta)

lemma toy_draws [simp]:
  "np_exponential toy_rng scale g = (if g = 0 then 60000 else 20000, Suc g)"
  "np_uniform toy_rng low high g = (low, Suc g)"
  "py_random toy_rng g = (0.5, Suc g)"
  by (simp_all add: toy_rng_def)

lemma draws_unfold:
  "0 < n \<Longrightarrow> draws d n g = (fst (d g) # fst (draws d (n - 1) (snd (d g))),
                               snd (draws d (n - 1) (snd (d g))))"
  by (cases n) (simp_all add: split_beta)

lemma toy_interarrivals_first:
  "generate_interarrivals toy_rng 5 35 0 = Some ([60000], 1)"
  by (simp add: generate_interarrivals_def interarrival_loop_unfold)

definition first_calls :: "call list" where
  "first_calls = [(60000, 20000, 53.35, -113.75, 1)]"

lemma toy_calls_first: "generate_calls toy_rng 5 0 = Some (first_calls, 5)"
  by (simp add: generate_calls_def toy_interarrivals_first synthetic_call_locations_def
      draws_unfold first_calls_def)

lemma events_first:
  "build_events first_calls = [Call 60000 20000 53.35 (-113.75) 1]"
  by (simp add: build_events_def first_calls_def call_event_def insort_time_Nil)

definition toy_env :: "nat sim_env" where
  "toy_env = make_env toy_rng (build_table [3, 9]) 2 (map make_station [0..<17]) (map make_hospital [0..<5])"

definition toy_scene :: real where
  "toy_scene = scene_time [make_ambulance 0] 53.35 (-113.75)"

definition toy_hospital :: real where
  "toy_hospital = hospital_time (map make_hospital [0..<5]) 53.35 (-113.75)"

definition toy_final :: "nat sim_state" where
  "toy_final =
     \<lparr>ambulances =
        [(make_ambulance 0)\<lparr>availability := 1, latitude := latitude (make_station 2),
                             longitude := longitude (make_station 2)\<rparr>],
      events = [], current_state = 1, travel_times = [toy_scene, toy_hospital],
      lost = 0, rng = 6\<rparr>"

definition toy_metrics :: metrics where
  "toy_metrics =
     \<lparr>median_response_time = Some (replication_median toy_final),
      coverage = Some (replication_coverage toy_final),
      lost_calls = Some 0\<rparr>"

lemma one_fleet:
  "fixed_location_generator 1 17 5 =
     Inr ([make_ambulance 0], map make_station [0..<17], map make_hospital [0..<5])"
  by (simp add: fixed_location_generator_def station_lat_def home_station_def hospital_lat_def)

lemma build_table_3_9: "build_table [3, 9] = [[], [3], [3, 9]]"
  by (simp add: build_table_def upt_rec)

lemma station_3: "py_index (map make_station [0..<17]) 2 = Inr (make_station 2)"
  by (simp add: py_index_def) (simp add: numeral_2_eq_2)

lemma toy_target: "reposition_target toy_env 1 lat lon = Inr 3"
proof -
  have e: "reposition_table toy_env = [[], [3], [3, 9]]" "stations toy_env = map make_station [0..<17]"
    by (simp_all add: toy_env_def make_env_def build_table_3_9)
  have len: "length (map make_station [0..<17]) = 17" by simp
  have c: "reposition_candidates [[], [3], [3, 9]] 17 1 = Inr [3]"
    by (simp add: reposition_candidates_def py_index_def)
  have d: "station_dists (map make_station [0..<17]) lat lon [3] =
      Inr [distance_km lat lon (latitude (make_station 2)) (longitude (make_station 2))]"
    by (simp add: station_3)
  show ?thesis
    by (simp only: reposition_target_def e len c sum.case d) (simp add: np_argmin_def)
qed

lemma toy_dispatch_any:
  assumes "la = 53.35" "lo = -113.75"
    and "hospitals env = map make_hospital [0..<5]" "ops env = toy_rng"
  shows "step env (Call 60000 20000 la lo 1)
     \<lparr>ambulances = [make_ambulance 0], events = [], current_state = 1,
      travel_times = [], lost = 0, rng = 5\<rparr> =
   Inr \<lparr>ambulances = [(make_ambulance 0)\<lparr>availability := 0, latitude := la, longitude := lo\<rparr>],
        events = [Free (60000 + toy_scene + 20000 + toy_hospital + 20000) 0],
        current_state = 0, travel_times = [toy_scene, toy_hospital], lost = 0, rng = 6\<rparr>"
proof -
  let ?s = "\<lparr>ambulances = [make_ambulance 0], events = [], current_state = 1,
      travel_times = [], lost = 0, rng = 5::nat\<rparr>"
  have h: "current_state ?s \<noteq> 0" "ambulances ?s \<noteq> []" by simp_all
  have ne: "map make_hospital [0..<5] \<noteq> []" by simp
  have w: "warmup \<le> 60000" by (simp add: warmup_def)
  have sc: "scene_time [make_ambulance 0] la lo = toy_scene"
    "hospital_time (map make_hospital [0..<5]) la lo = toy_hospital"
    by (simp_all add: toy_scene_def toy_hospital_def assms(1,2))
  show ?thesis
    unfolding step.simps handle_call_dispatch[OF h] assms(3,4) Let_def
    using ne w
    by (simp add: example_chosen dispatched_def insort_time_Nil sc ident_make_ambulance)
qed

lemma toy_free:
  "step toy_env (Free tf 0)
     \<lparr>ambulances = [(make_ambulance 0)\<lparr>availability := 0, latitude := la, longitude := lo\<rparr>],
      events = [], current_state = 0, travel_times = [toy_scene, toy_hospital],
      lost = 0, rng = 6\<rparr> = Inr toy_final"
proof -
  have e: "th toy_env = 2" "stations toy_env = map make_station [0..<17]"
    by (simp_all add: toy_env_def make_env_def)
  show ?thesis
    by (simp add: handle_free_def Let_def e toy_target station_3 toy_final_def)
qed

lemma toy_simulate:
  "simulate toy_rng (build_table [3, 9]) 2 1 17 first_calls 5 = Inr toy_final"
proof -
  have env: "make_env toy_rng (build_table [3, 9]) 2 (map make_station [0..<17])
      (map make_hospital [0..<5]) = toy_env"
    by (simp add: toy_env_def)
  have hr: "hospitals toy_env = map make_hospital [0..<5]" "ops toy_env = toy_rng"
    by (simp_all add: toy_env_def make_env_def)
  have fin: "events toy_final = []" by (simp add: toy_final_def)
  show ?thesis
    unfolding simulate_def one_fleet
    by (simp only: sum.case prod.case env initial_state_def events_first)
      (simp add: run_step toy_dispatch_any[OF _ _ hr] toy_free run_no_events[OF fin]
        del: step.simps)
qed

lemma toy_fitness:
  "fitness_function toy_rng 5 [3, 9] 2 1 17 1 0 =
     Some (Inr (\<lparr>median_response_time = Some (replication_median toy_final),
                 coverage = Some (replication_coverage toy_final),
                 lost_calls = Some 0\<rparr>, 6))"
proof -
  have rep: "replication toy_rng 5 (build_table [3, 9]) 2 1 17 0 =
      Some (Inr (replication_metrics toy_final, rng toy_final))"
    by (simp only: replication_def one_fleet sum.case toy_calls_first option.case prod.case
        toy_simulate)
  have rep': "replication toy_rng 5 (build_table [3, 9]) 2 (Suc 0) 17 0 =
      Some (Inr (replication_metrics toy_final, rng toy_final))"
    using rep by simp
  have r: "rng toy_final = 6" "lost toy_final = 0" by (simp_all add: toy_final_def)
  show ?thesis
    by (simp add: fitness_function_def rep' replication_metrics_eq r np_mean_def mean_def)
qed





section \<open>The fallback with two stations\<close>

text \<open>
  The complete run of \<open>fitness_function\<close> on the scenario with two stations, with the
  generator of the concrete scenario: the only call is dispatched, and the \<open>Free\<close> event
  of its ambulance triggers the reposition.
\<close>

lemma two_stations:
  "fixed_location_generator 1 2 5 =
     Inr ([make_ambulance 0], map make_station [0..<2], map make_hospital [0..<5])"
  by (simp add: fixed_location_generator_def station_lat_def home_station_def hospital_lat_def)

lemma small_free:
  "step small_env (Free tf 0)
     \<lparr>ambulances = [(make_ambulance 0)\<lparr>availability := 0, latitude := la, longitude := lo\<rparr>],
      events = [], current_state = 0, travel_times = [toy_scene, toy_hospital],
      lost = 0, rng = 6\<rparr> = Inl IndexError"
proof -
  have e: "reposition_table small_env = build_table [9]" "stations small_env = map make_station [0..<2]"
    "th small_env = 2"
    by (simp_all add: small_env_def make_env_def)
  have len: "length (map make_station [0..<2]) = 2" by simp
  have "reposition_target small_env 1 lat lon = Inl IndexError" for lat lon
    by (simp only: reposition_target_def e len small_candidates sum.case small_station_dists)
  then show ?thesis
    by (simp add: e handle_free_def Let_def)
qed

lemma small_simulate:
  "simulate toy_rng (build_table [9]) 2 1 2 first_calls 5 = Inl IndexError"
proof -
  have env: "make_env toy_rng (build_table [9]) 2 (map make_station [0..<2])
      (map make_hospital [0..<5]) = small_env"
    by (simp add: small_env_def)
  have hr: "hospitals small_env = map make_hospital [0..<5]" "ops small_env = toy_rng"
    by (simp_all add: small_env_def make_env_def)
  show ?thesis
    unfolding simulate_def two_stations
    by (simp only: sum.case prod.case env initial_state_def events_first)
      (simp add: run_step toy_dispatch_any[OF _ _ hr] small_free del: step.simps)
qed

lemma small_fitness: "fitness_function toy_rng 5 [9] 2 1 2 1 0 = Some (Inl IndexError)"
proof -
  have rep: "replication toy_rng 5 (build_table [9]) 2 1 2 0 = Some (Inl IndexError)"
    by (simp only: replication_def two_stations sum.case toy_calls_first option.case prod.case
        small_simulate)
  have rep': "replication toy_rng 5 (build_table [9]) 2 (Suc 0) 2 0 = Some (Inl IndexError)"
    using rep by simp
  show ?thesis
    by (simp add: fitness_function_def rep')
qed

text \<open>
  C3. The claim fails on the code for a station count below three: the filter drops the
  id 9, the fallback \<open>[1, 2, 3]\<close> replaces the emptied list without being filtered, the
  loop over the candidates raises \<^verbatim>\<open>IndexError\<close> at \<^verbatim>\<open>stations[2]\<close>, and the run of
  \<open>fitness_function\<close> ends with that error.
\<close>

theorem reposition_fallback_out_of_range:
  "reposition_candidates (build_table [9]) 2 1 = Inr [1, 2, 3] \<and>
   station_dists (map make_station [0..<2]) 53.35 (-113.75) [1, 2, 3] = Inl IndexError \<and>
   fitness_function toy_rng 5 [9] 2 1 2 1 0 = Some (Inl IndexError)"
  using small_candidates small_station_dists[of "53.35" "-113.75"] small_fitness by simp

section \<open>Runs and the state of the generators\<close>

text \<open>
  \<open>fitness_function\<close> reads the generators in the state it finds them in and leaves them
  advanced by its draws; the source seeds them once, at import, and never again. Two
  generators deliver the same draws from two states when a relation between their states
  holds of the two states, every draw from related states returns the same value, and the
  states after the draw are related again.
\<close>

definition same_draws :: "('g \<Rightarrow> 'h \<Rightarrow> bool) \<Rightarrow> 'g rng_ops \<Rightarrow> 'h rng_ops \<Rightarrow> bool" where
  "same_draws rel R1 R2 \<longleftrightarrow>
     (\<forall>g h. rel g h \<longrightarrow>
        (\<forall>scale. fst (np_exponential R1 scale g) = fst (np_exponential R2 scale h) \<and>
                  rel (snd (np_exponential R1 scale g)) (snd (np_exponential R2 scale h))) \<and>
        (\<forall>low high. fst (np_uniform R1 low high g) = fst (np_uniform R2 low high h) \<and>
                     rel (snd (np_uniform R1 low high g)) (snd (np_uniform R2 low high h))) \<and>
        fst (py_random R1 g) = fst (py_random R2 h) \<and>
        rel (snd (py_random R1 g)) (snd (py_random R2 h)))"

definition same_state :: "('g \<Rightarrow> 'h \<Rightarrow> bool) \<Rightarrow> 'g sim_state \<Rightarrow> 'h sim_state \<Rightarrow> bool" where
  "same_state rel s1 s2 \<longleftrightarrow>
     ambulances s1 = ambulances s2 \<and> events s1 = events s2 \<and>
     current_state s1 = current_state s2 \<and> travel_times s1 = travel_times s2 \<and>
     lost s1 = lost s2 \<and> rel (rng s1) (rng s2)"

definition same_env :: "('g \<Rightarrow> 'h \<Rightarrow> bool) \<Rightarrow> 'g sim_env \<Rightarrow> 'h sim_env \<Rightarrow> bool" where
  "same_env rel env1 env2 \<longleftrightarrow>
     same_draws rel (ops env1) (ops env2) \<and> reposition_table env1 = reposition_table env2 \<and>
     th env1 = th env2 \<and> stations env1 = stations env2 \<and> hospitals env1 = hospitals env2"

lemma draws_same:
  assumes "\<And>g h. rel g h \<Longrightarrow> fst (d1 g) = fst (d2 h) \<and> rel (snd (d1 g)) (snd (d2 h))"
    and "rel g h"
  shows "fst (draws d1 n g) = fst (draws d2 n h) \<and> rel (snd (draws d1 n g)) (snd (draws d2 n h))"
  using assms(2)
proof (induction n arbitrary: g h)
  case 0
  then show ?case by simp
next
  case (Suc n)
  have a: "fst (d1 g) = fst (d2 h)" "rel (snd (d1 g)) (snd (d2 h))"
    using assms(1)[OF Suc.prems] by simp_all
  show ?case using Suc.IH[OF a(2)] a(1) by (simp add: split_beta)
qed

lemma interarrival_loop_same:
  assumes "same_draws rel R1 R2" "rel g h"
  shows "rel_option (rel_prod (=) rel)
           (interarrival_loop R1 fuel total_sim t acc g)
           (interarrival_loop R2 fuel total_sim t acc h)"
  using assms(2)
proof (induction fuel arbitrary: t acc g h)
  case 0
  then show ?case by simp
next
  case (Suc fuel)
  let ?sc = "1 / (LAMBDA_BASE (shift_of (py_fmod t (24 * 60)))
                    * day_mult (days ! nat (py_floordiv t (24 * 60) mod 7)))"
  have a: "fst (np_exponential R1 ?sc g) = fst (np_exponential R2 ?sc h)"
    "rel (snd (np_exponential R1 ?sc g)) (snd (np_exponential R2 ?sc h))"
    using assms(1) Suc.prems by (simp_all add: same_draws_def)
  show ?case
    using Suc.IH[OF a(2)] a(1) Suc.prems by (simp add: Let_def split_beta)
qed

lemma generate_calls_same:
  assumes "same_draws rel R1 R2" "rel g h"
  shows "rel_option (rel_prod (=) rel) (generate_calls R1 fuel g) (generate_calls R2 fuel h)"
proof -
  have gi: "rel_option (rel_prod (=) rel)
      (generate_interarrivals R1 fuel 35 g) (generate_interarrivals R2 fuel 35 h)"
    unfolding generate_interarrivals_def using assms by (rule interarrival_loop_same)
  show ?thesis
  proof (cases "generate_interarrivals R1 fuel 35 g")
    case None
    then show ?thesis using gi by (auto simp: generate_calls_def)
  next
    case (Some r1)
    then obtain ias g1 h1 where r: "generate_interarrivals R1 fuel 35 g = Some (ias, g1)"
      "generate_interarrivals R2 fuel 35 h = Some (ias, h1)" "rel g1 h1"
      using gi by (cases r1; cases "generate_interarrivals R2 fuel 35 h") auto
    let ?n = "length ias"
    have e: "\<And>g h. rel g h \<Longrightarrow>
        fst (np_exponential R1 (1 / 15) g) = fst (np_exponential R2 (1 / 15) h) \<and>
        rel (snd (np_exponential R1 (1 / 15) g)) (snd (np_exponential R2 (1 / 15) h))"
      using assms(1) by (simp add: same_draws_def)
    have u: "\<And>lo hi g h. rel g h \<Longrightarrow>
        fst (np_uniform R1 lo hi g) = fst (np_uniform R2 lo hi h) \<and>
        rel (snd (np_uniform R1 lo hi g)) (snd (np_uniform R2 lo hi h))"
      using assms(1) by (simp add: same_draws_def)
    have p: "\<And>g h. rel g h \<Longrightarrow>
        fst (py_random R1 g) = fst (py_random R2 h) \<and>
        rel (snd (py_random R1 g)) (snd (py_random R2 h))"
      using assms(1) by (simp add: same_draws_def)
    note d1 = draws_same[of rel "np_exponential R1 (1 / 15)" "np_exponential R2 (1 / 15)",
        OF e r(3), of ?n]
    note d2 = draws_same[of rel "np_uniform R1 53.35 53.70" "np_uniform R2 53.35 53.70",
        OF u conjunct2[OF d1], of ?n]
    note d3 = draws_same[of rel "np_uniform R1 (-113.75) (-113.25)" "np_uniform R2 (-113.75) (-113.25)",
        OF u conjunct2[OF d2], of ?n]
    note d4 = draws_same[of rel "py_random R1" "py_random R2", OF p conjunct2[OF d3], of ?n]
    show ?thesis
      using d1 d2 d3 d4
      by (simp add: generate_calls_def r synthetic_call_locations_def split_beta Let_def)
  qed
qed

lemma handle_call_same:
  assumes "same_env rel env1 env2" "same_state rel s1 s2"
  shows "rel_sum (=) (same_state rel)
           (handle_call env1 t treat lat lon hos s1) (handle_call env2 t treat lat lon hos s2)"
proof -
  have d: "fst (np_exponential (ops env1) 35 (rng s1)) = fst (np_exponential (ops env2) 35 (rng s2))"
    "rel (snd (np_exponential (ops env1) 35 (rng s1))) (snd (np_exponential (ops env2) 35 (rng s2)))"
    using assms by (simp_all add: same_env_def same_state_def same_draws_def)
  have h: "hospitals env1 = hospitals env2" using assms(1) by (simp add: same_env_def)
  have s: "ambulances s1 = ambulances s2" "events s1 = events s2"
    "current_state s1 = current_state s2" "travel_times s1 = travel_times s2" "lost s1 = lost s2"
    "rel (rng s1) (rng s2)"
    using assms(2) by (simp_all add: same_state_def)
  show ?thesis
    using d s
    by (auto simp: handle_call_def Let_def h split_beta same_state_def split: sum.splits)
qed

lemma reposition_target_same:
  assumes "same_env rel env1 env2"
  shows "reposition_target env1 cs lat lon = reposition_target env2 cs lat lon"
proof -
  have e: "reposition_table env1 = reposition_table env2" "stations env1 = stations env2"
    using assms by (simp_all add: same_env_def)
  show ?thesis unfolding reposition_target_def e ..
qed

lemma handle_free_same:
  assumes "same_env rel env1 env2" "same_state rel s1 s2"
  shows "rel_sum (=) (same_state rel) (handle_free env1 t k s1) (handle_free env2 t k s2)"
proof -
  have e: "th env1 = th env2" "stations env1 = stations env2"
    using assms(1) by (simp_all add: same_env_def)
  have s: "ambulances s1 = ambulances s2" "events s1 = events s2"
    "current_state s1 = current_state s2" "travel_times s1 = travel_times s2" "lost s1 = lost s2"
    "rel (rng s1) (rng s2)"
    using assms(2) by (simp_all add: same_state_def)
  show ?thesis
    using s
    by (auto simp: handle_free_def Let_def e reposition_target_same[OF assms(1)] same_state_def
        split: sum.splits)
qed

lemma step_same:
  assumes "same_env rel env1 env2" "same_state rel s1 s2"
  shows "rel_sum (=) (same_state rel) (step env1 e s1) (step env2 e s2)"
  using assms by (cases e) (simp_all add: handle_call_same handle_free_same)

lemma run_same:
  assumes "same_env rel env1 env2" "same_state rel s1 s2"
  shows "rel_sum (=) (same_state rel) (run env1 s1) (run env2 s2)"
  using assms
proof (induction env1 s1 arbitrary: s2 rule: run.induct)
  case (1 env1 s1)
  have ev: "events s1 = events s2" using "1.prems"(2) by (simp add: same_state_def)
  show ?case
  proof (cases "events s1")
    case Nil
    then show ?thesis using ev "1.prems"(2) by (simp add: run_no_events)
  next
    case (Cons e rest)
    have pop: "same_state rel (s1\<lparr>events := rest\<rparr>) (s2\<lparr>events := rest\<rparr>)"
      using "1.prems"(2) by (simp add: same_state_def)
    have st: "rel_sum (=) (same_state rel)
        (step env1 e (s1\<lparr>events := rest\<rparr>)) (step env2 e (s2\<lparr>events := rest\<rparr>))"
      using "1.prems"(1) pop by (rule step_same)
    have r1: "run env1 s1 = (case step env1 e (s1\<lparr>events := rest\<rparr>) of
        Inl err \<Rightarrow> Inl err | Inr s' \<Rightarrow> run env1 s')"
      using Cons by (rule run_step)
    have r2: "run env2 s2 = (case step env2 e (s2\<lparr>events := rest\<rparr>) of
        Inl err \<Rightarrow> Inl err | Inr s' \<Rightarrow> run env2 s')"
      using Cons ev by (intro run_step) simp
    show ?thesis
    proof (cases "step env1 e (s1\<lparr>events := rest\<rparr>)")
      case (Inl err)
      then show ?thesis using st r1 r2
        by (cases "step env2 e (s2\<lparr>events := rest\<rparr>)") simp_all
    next
      case (Inr s1')
      then obtain s2' where s2': "step env2 e (s2\<lparr>events := rest\<rparr>) = Inr s2'"
        "same_state rel s1' s2'"
        using st by (cases "step env2 e (s2\<lparr>events := rest\<rparr>)") simp_all
      have "rel_sum (=) (same_state rel) (run env1 s1') (run env2 s2')"
        using Cons Inr "1.prems"(1) s2'(2) by (rule "1.IH")
      then show ?thesis using r1 r2 Inr s2'(1) by simp
    qed
  qed
qed

lemma simulate_same:
  assumes "same_draws rel R1 R2" "rel g h"
  shows "rel_sum (=) (same_state rel)
           (simulate R1 table t an sn calls g) (simulate R2 table t an sn calls h)"
proof (cases "fixed_location_generator an sn 5")
  case (Inl e)
  then show ?thesis by (simp add: simulate_def)
next
  case (Inr locs)
  obtain ambs sts hos where locs: "locs = (ambs, sts, hos)" by (cases locs) auto
  have env: "same_env rel (make_env R1 table t sts hos) (make_env R2 table t sts hos)"
    using assms(1) by (simp add: same_env_def make_env_def)
  have st: "same_state rel (initial_state ambs calls an g) (initial_state ambs calls an h)"
    using assms(2) by (simp add: same_state_def initial_state_def)
  show ?thesis
    using run_same[OF env st] by (simp add: simulate_def Inr locs)
qed

lemma replication_same:
  assumes "same_draws rel R1 R2" "rel g h"
  shows "rel_option (rel_sum (=) (rel_prod (=) rel))
           (replication R1 fuel table t an sn g) (replication R2 fuel table t an sn h)"
proof (cases "fixed_location_generator an sn 5")
  case (Inl e)
  then show ?thesis by (simp add: replication_def)
next
  case (Inr locs)
  have gc: "rel_option (rel_prod (=) rel) (generate_calls R1 fuel g) (generate_calls R2 fuel h)"
    using assms by (rule generate_calls_same)
  show ?thesis
  proof (cases "generate_calls R1 fuel g")
    case None
    then show ?thesis using gc Inr by (auto simp: replication_def)
  next
    case (Some r1)
    then obtain calls g1 h1 where c: "generate_calls R1 fuel g = Some (calls, g1)"
      "generate_calls R2 fuel h = Some (calls, h1)" "rel g1 h1"
      using gc by (cases r1; cases "generate_calls R2 fuel h") auto
    have sim: "rel_sum (=) (same_state rel)
        (simulate R1 table t an sn calls g1) (simulate R2 table t an sn calls h1)"
      using assms(1) c(3) by (rule simulate_same)
    show ?thesis
    proof (cases "simulate R1 table t an sn calls g1")
      case (Inl e)
      then show ?thesis using sim c Inr
        by (cases "simulate R2 table t an sn calls h1") (simp_all add: replication_def)
    next
      case (Inr s1)
      then obtain s2 where s2: "simulate R2 table t an sn calls h1 = Inr s2" "same_state rel s1 s2"
        using sim by (cases "simulate R2 table t an sn calls h1") simp_all
      have "replication_metrics s1 = replication_metrics s2" "rel (rng s1) (rng s2)"
        using s2(2) by (simp_all add: replication_metrics_def same_state_def)
      then show ?thesis using c Inr s2(1) \<open>fixed_location_generator an sn 5 = Inr locs\<close>
        by (simp add: replication_def)
    qed
  qed
qed

lemma replications_same:
  assumes "same_draws rel R1 R2" "rel g h"
  shows "rel_option (rel_sum (=) (rel_prod (=) rel))
           (replications R1 fuel table t an sn k acc g) (replications R2 fuel table t an sn k acc h)"
  using assms(2)
proof (induction k arbitrary: acc g h)
  case 0
  then show ?case by simp
next
  case (Suc k)
  obtain ms cs ls where acc: "acc = (ms, cs, ls)" by (cases acc) auto
  have rep: "rel_option (rel_sum (=) (rel_prod (=) rel))
      (replication R1 fuel table t an sn g) (replication R2 fuel table t an sn h)"
    using assms(1) Suc.prems by (rule replication_same)
  show ?case
  proof (cases "replication R1 fuel table t an sn g")
    case None
    then show ?thesis using rep by (auto simp: acc)
  next
    case (Some r1)
    then obtain r2 where r2: "replication R2 fuel table t an sn h = Some r2"
      "rel_sum (=) (rel_prod (=) rel) r1 r2"
      using rep by (cases "replication R2 fuel table t an sn h") auto
    show ?thesis
    proof (cases r1)
      case (Inl e)
      then show ?thesis using Some r2 by (cases r2) (simp_all add: acc)
    next
      case (Inr p1)
      then obtain trip g1 h1 where p: "r1 = Inr (trip, g1)" "r2 = Inr (trip, h1)" "rel g1 h1"
        using r2(2) by (cases r2; cases p1) auto
      obtain med cov lst where trip: "trip = (med, cov, lst)" by (cases trip) auto
      show ?thesis
        using Suc.IH[OF p(3)] Some r2(1) p(1,2) by (simp add: acc trip)
    qed
  qed
qed

subsection \<open>Two runs in one process\<close>

text \<open>
  With no ambulance every call at or past the warm-up boundary is lost. From the seeded
  state the generator of the concrete scenario puts one call at minute 60000; from the
  state that run leaves behind it puts calls at minutes 20000, 40000 and 60000.
\<close>

definition second_calls :: "call list" where
  "second_calls =
     [(20000, 20000, 53.35, -113.75, 1), (40000, 20000, 53.35, -113.75, 1),
      (60000, 20000, 53.35, -113.75, 1)]"

lemma toy_interarrivals_second:
  "generate_interarrivals toy_rng 5 35 5 = Some ([20000, 20000, 20000], 8)"
  by (simp add: generate_interarrivals_def interarrival_loop_unfold)

lemma toy_calls_second: "generate_calls toy_rng 5 5 = Some (second_calls, 20)"
  by (simp add: generate_calls_def toy_interarrivals_second synthetic_call_locations_def
      draws_unfold second_calls_def)

lemma events_second:
  "build_events second_calls =
     [Call 20000 20000 53.35 (-113.75) 1, Call 40000 20000 53.35 (-113.75) 1,
      Call 60000 20000 53.35 (-113.75) 1]"
  by (simp add: build_events_def second_calls_def call_event_def insort_time_def
      bisect_right.simps)

lemma no_fleet:
  "fixed_location_generator 0 17 5 = Inr ([], map make_station [0..<17], map make_hospital [0..<5])"
  by (simp add: fixed_location_generator_def station_lat_def home_station_def hospital_lat_def)

lemma toy_simulate_first:
  "simulate toy_rng table t 0 17 first_calls g =
     Inr \<lparr>ambulances = [], events = [], current_state = 0, travel_times = [], lost = 1, rng = g\<rparr>"
  by (simp add: simulate_def no_fleet initial_state_def events_first run_step run_no_events
      handle_call_def warmup_def)

lemma toy_simulate_second:
  "simulate toy_rng table t 0 17 second_calls g =
     Inr \<lparr>ambulances = [], events = [], current_state = 0, travel_times = [], lost = 3, rng = g\<rparr>"
  by (simp add: simulate_def no_fleet initial_state_def events_second run_step run_no_events
      handle_call_def warmup_def)

lemma toy_replication_first:
  "replication toy_rng 5 table t 0 17 0 = Some (Inr ((999, 0, 1), 5))"
  by (simp add: replication_def no_fleet toy_calls_first toy_simulate_first replication_metrics_def)

lemma toy_replication_second:
  "replication toy_rng 5 table t 0 17 5 = Some (Inr ((999, 0, 3), 20))"
  by (simp add: replication_def no_fleet toy_calls_second toy_simulate_second replication_metrics_def)

lemma toy_fitness_first:
  "fitness_function toy_rng 5 p t 0 17 1 0 =
     Some (Inr (\<lparr>median_response_time = Some 999, coverage = Some 0, lost_calls = Some 1\<rparr>, 5))"
  by (simp add: fitness_function_def toy_replication_first np_mean_def mean_def)

lemma toy_fitness_second:
  "fitness_function toy_rng 5 p t 0 17 1 5 =
     Some (Inr (\<lparr>median_response_time = Some 999, coverage = Some 0, lost_calls = Some 3\<rparr>, 20))"
  by (simp add: fitness_function_def toy_replication_second np_mean_def mean_def)

definition shifted_rng :: "nat rng_ops" where
  "shifted_rng =
     \<lparr>seed = (\<lambda>n. 100),
      np_exponential = (\<lambda>scale g. (if g = 100 then 60000 else 20000, Suc g)),
      np_uniform = (\<lambda>low high g. (low, Suc g)),
      py_random = (\<lambda>g. (0.5, Suc g))\<rparr>"

lemma shifted_same_draws: "same_draws (\<lambda>g h. h = g + 100) toy_rng shifted_rng"
  by (simp add: same_draws_def toy_rng_def shifted_rng_def)

text \<open>
  C2, as stated, fails on the code: after the one module-level seeding, two runs of
  \<open>fitness_function\<close> with identical inputs, the second starting from the generator
  state that the first has left, return different metrics (one lost call, then three).
\<close>

theorem successive_runs_differ:
  "seed toy_rng SEED = 0 \<and>
   fitness_function toy_rng 5 [] 0 0 17 1 (seed toy_rng SEED) =
     Some (Inr (\<lparr>median_response_time = Some 999, coverage = Some 0, lost_calls = Some 1\<rparr>, 5)) \<and>
   fitness_function toy_rng 5 [] 0 0 17 1 5 =
     Some (Inr (\<lparr>median_response_time = Some 999, coverage = Some 0, lost_calls = Some 3\<rparr>, 20)) \<and>
   \<lparr>median_response_time = Some 999, coverage = Some 0, lost_calls = Some (1::real)\<rparr> \<noteq>
   \<lparr>median_response_time = Some 999, coverage = Some 0, lost_calls = Some 3\<rparr>"
proof -
  have s: "seed toy_rng SEED = 0" by (simp add: toy_rng_def)
  show ?thesis
    unfolding s using toy_fitness_first[of "[]" 0] toy_fitness_second[of "[]" 0] by simp
qed

text \<open>
  C2, amended. For identical inputs the result of \<open>fitness_function\<close> is determined by
  the draws that the generators deliver from their state at entry: two runs whose
  generators deliver the same draws both run out of fuel, or raise the same error, or
  return the same metrics and leave the generators in related states.
\<close>

theorem fitness_determined_by_draws:
  assumes "same_draws rel R1 R2" "rel g h"
  shows "rel_option (rel_sum (=) (rel_prod (=) rel))
           (fitness_function R1 fuel primary_list t an sn iterations g)
           (fitness_function R2 fuel primary_list t an sn iterations h)"
proof -
  let ?r1 = "replications R1 fuel (build_table primary_list) t an sn iterations ([], [], []) g"
  let ?r2 = "replications R2 fuel (build_table primary_list) t an sn iterations ([], [], []) h"
  have rep: "rel_option (rel_sum (=) (rel_prod (=) rel)) ?r1 ?r2"
    using assms by (rule replications_same)
  show ?thesis
  proof (cases ?r1)
    case None
    then show ?thesis using rep by (auto simp: fitness_function_def)
  next
    case (Some r1)
    then obtain r2 where r2: "?r2 = Some r2" "rel_sum (=) (rel_prod (=) rel) r1 r2"
      using rep by (cases ?r2) auto
    show ?thesis
    proof (cases r1)
      case (Inl e)
      then show ?thesis using Some r2 by (cases r2) (simp_all add: fitness_function_def)
    next
      case (Inr p1)
      then obtain acc g1 h1 where p: "r1 = Inr (acc, g1)" "r2 = Inr (acc, h1)" "rel g1 h1"
        using r2(2) by (cases r2; cases p1) auto
      obtain ms cs ls where acc: "acc = (ms, cs, ls)" by (cases acc) auto
      show ?thesis using Some r2(1) p by (simp add: fitness_function_def acc)
    qed
  qed
qed

theorem fitness_determined_by_draws_witness:
  "same_draws (\<lambda>g h. h = g + 100) toy_rng shifted_rng \<and>
   seed shifted_rng SEED = seed toy_rng SEED + 100 \<and>
   fitness_function toy_rng 5 [3, 9] 2 1 17 1 (seed toy_rng SEED) = Some (Inr (toy_metrics, 6)) \<and>
   fitness_function shifted_rng 5 [3, 9] 2 1 17 1 (seed shifted_rng SEED) = Some (Inr (toy_metrics, 106))"
proof -
  have s: "seed toy_rng SEED = 0" "seed shifted_rng SEED = 100"
    by (simp_all add: toy_rng_def shifted_rng_def)
  have r: "(100::nat) = 0 + 100" by simp
  have f: "fitness_function toy_rng 5 [3, 9] 2 1 17 1 0 = Some (Inr (toy_metrics, 6))"
    unfolding toy_metrics_def by (rule toy_fitness)
  have "rel_option (rel_sum (=) (rel_prod (=) (\<lambda>g h. h = g + 100)))
      (fitness_function toy_rng 5 [3, 9] 2 1 17 1 0)
      (fitness_function shifted_rng 5 [3, 9] 2 1 17 1 100)"
    using shifted_same_draws r by (rule fitness_determined_by_draws)
  then have "fitness_function shifted_rng 5 [3, 9] 2 1 17 1 100 = Some (Inr (toy_metrics, 106))"
    unfolding f
    by (cases "fitness_function shifted_rng 5 [3, 9] 2 1 17 1 100")
      (auto elim!: rel_sum.cases)
  then show ?thesis unfolding s using shifted_same_draws f by simp
qed

end
